theory Spec2Isabelle
  imports Complex_Main
begin

section \<open>JSON values and the JavaScript built-ins the crawler calls\<close>

text \<open>
  The crawler works on values produced by \<^verbatim>\<open>JSON.parse\<close> and \<^verbatim>\<open>response.json()\<close>:
  finite trees of null, booleans, numbers, strings, arrays and objects. An object is kept
  as the list of its own properties in enumeration order, which is the order both
  \<^verbatim>\<open>JSON.stringify\<close> and \<^verbatim>\<open>Object.values\<close> follow. A \<open>char\<close> stands for one code unit
  in the range U+0000 to U+00FF.

  A number is a finite double. It is kept as the text that \<^verbatim>\<open>Number::toString\<close> gives for it
  (\<^verbatim>\<open>0.5\<close>, \<^verbatim>\<open>-12\<close>, \<^verbatim>\<open>1e+21\<close>), which is also the text \<^verbatim>\<open>JSON.stringify\<close> prints. Two doubles
  with the same text are the same number, but for \<^verbatim>\<open>0\<close> and \<^verbatim>\<open>-0\<close>: both have the text \<^verbatim>\<open>0\<close>,
  both are falsy, and nothing the crawler does tells them apart.
\<close>

datatype json =
    JNull
  | JBool bool
  | JNum string
  | JStr string
  | JArr "json list"
  | JObj "(string \<times> json) list"

text \<open>The one error a pass of the extractor can raise.\<close>

datatype js_error = TypeError

text \<open>The decimal digits of a counter, as \<^verbatim>\<open>`${fileCounter}`\<close> prints them.\<close>

fun digits10 :: "nat \<Rightarrow> string" where
  "digits10 n =
     (if n < 10 then [''0123456789'' ! n]
      else digits10 (n div 10) @ [''0123456789'' ! (n mod 10)])"

fun join_with :: "string \<Rightarrow> string list \<Rightarrow> string" where
  "join_with sep [] = []"
| "join_with sep [x] = x"
| "join_with sep (x # y # ys) = x @ sep @ join_with sep (y # ys)"

definition hex4 :: "nat \<Rightarrow> string" where
  "hex4 n =
     [''0123456789abcdef'' ! (n div 4096 mod 16), ''0123456789abcdef'' ! (n div 256 mod 16),
      ''0123456789abcdef'' ! (n div 16 mod 16), ''0123456789abcdef'' ! (n mod 16)]"

text \<open>The escapes of \<^verbatim>\<open>JSON.stringify\<close> inside a string literal.\<close>

definition escape_char :: "char \<Rightarrow> string" where
  "escape_char c =
     (if c = CHR 0x22 then [CHR 0x5C, CHR 0x22]
      else if c = CHR 0x5C then [CHR 0x5C, CHR 0x5C]
      else if c = CHR 0x08 then [CHR 0x5C, CHR ''b'']
      else if c = CHR 0x0C then [CHR 0x5C, CHR ''f'']
      else if c = CHR 0x0A then [CHR 0x5C, CHR ''n'']
      else if c = CHR 0x0D then [CHR 0x5C, CHR ''r'']
      else if c = CHR 0x09 then [CHR 0x5C, CHR ''t'']
      else if (of_char c :: nat) < 32 then CHR 0x5C # CHR ''u'' # hex4 (of_char c)
      else [c])"

definition quote :: "string \<Rightarrow> string" where
  "quote s = CHR 0x22 # concat (map escape_char s) @ [CHR 0x22]"

text \<open>\<^verbatim>\<open>JSON.stringify(value)\<close>: the compact form, no white space.\<close>

fun JSON_stringify :: "json \<Rightarrow> string" where
  "JSON_stringify JNull = ''null''"
| "JSON_stringify (JBool b) = (if b then ''true'' else ''false'')"
| "JSON_stringify (JNum t) = t"
| "JSON_stringify (JStr s) = quote s"
| "JSON_stringify (JArr xs) = ''['' @ join_with '','' (map JSON_stringify xs) @ '']''"
| "JSON_stringify (JObj kvs) =
     ''{'' @ join_with '','' (map (\<lambda>(k, v). quote k @ '':'' @ JSON_stringify v) kvs) @ ''}''"

text \<open>
  \<^verbatim>\<open>JSON.stringify(value, null, 2)\<close>: one element or property per line, indented by two
  more spaces per level; the first argument is the indentation of the enclosing line.
\<close>

fun JSON_stringify_indent :: "nat \<Rightarrow> json \<Rightarrow> string" where
  "JSON_stringify_indent ind (JArr xs) =
     (if xs = [] then ''[]''
      else ''['' @ [CHR 0x0A]
           @ join_with ('','' @ [CHR 0x0A])
               (map (\<lambda>x. replicate (ind + 2) (CHR 0x20) @ JSON_stringify_indent (ind + 2) x) xs)
           @ [CHR 0x0A] @ replicate ind (CHR 0x20) @ '']'')"
| "JSON_stringify_indent ind (JObj kvs) =
     (if kvs = [] then ''{}''
      else ''{'' @ [CHR 0x0A]
           @ join_with ('','' @ [CHR 0x0A])
               (map (\<lambda>(k, v). replicate (ind + 2) (CHR 0x20) @ quote k @ '': ''
                                @ JSON_stringify_indent (ind + 2) v) kvs)
           @ [CHR 0x0A] @ replicate ind (CHR 0x20) @ ''}'')"
| "JSON_stringify_indent ind v = JSON_stringify v"

text \<open>\<^verbatim>\<open>String.prototype.trim\<close>: white space and line terminators go from both ends.\<close>

definition js_whitespace :: "char \<Rightarrow> bool" where
  "js_whitespace c \<longleftrightarrow>
     c \<in> {CHR 0x09, CHR 0x0A, CHR 0x0B, CHR 0x0C, CHR 0x0D, CHR 0x20, CHR 0xA0}"

definition trim :: "string \<Rightarrow> string" where
  "trim s = rev (dropWhile js_whitespace (rev (dropWhile js_whitespace s)))"

text \<open>
  Property access \<^verbatim>\<open>obj.text\<close>, \<^verbatim>\<open>obj.href\<close>, \<^verbatim>\<open>obj.src\<close>: \<open>None\<close> is \<^verbatim>\<open>undefined\<close>. An array
  has none of the three properties.
\<close>

fun js_get :: "json \<Rightarrow> string \<Rightarrow> json option" where
  "js_get (JObj kvs) k = map_of kvs k"
| "js_get _ k = None"

fun js_truthy :: "json \<Rightarrow> bool" where
  "js_truthy JNull = False"
| "js_truthy (JBool b) = b"
| "js_truthy (JNum t) = (t \<noteq> ''0'')"
| "js_truthy (JStr s) = (s \<noteq> [])"
| "js_truthy (JArr xs) = True"
| "js_truthy (JObj kvs) = True"

fun js_typeof :: "json \<Rightarrow> string" where
  "js_typeof JNull = ''object''"
| "js_typeof (JBool b) = ''boolean''"
| "js_typeof (JNum t) = ''number''"
| "js_typeof (JStr s) = ''string''"
| "js_typeof (JArr xs) = ''object''"
| "js_typeof (JObj kvs) = ''object''"

text \<open>
  The string a template literal \<^verbatim>\<open>`${v}`\<close> puts in place of a value, or the error it
  raises. A plain object is converted by \<^verbatim>\<open>toString\<close>, then \<^verbatim>\<open>valueOf\<close>, whichever is callable
  and returns a primitive. Without an own property \<^verbatim>\<open>toString\<close> this is
  \<^verbatim>\<open>Object.prototype.toString\<close> and gives \<^verbatim>\<open>[object Object]\<close>. An own property \<^verbatim>\<open>toString\<close> of
  parsed JSON is never callable and hides it; \<^verbatim>\<open>valueOf\<close>, own or inherited, yields no
  primitive either, and the conversion raises a \<^verbatim>\<open>TypeError\<close>. An array is converted by
  \<^verbatim>\<open>join\<close>: its elements converted in turn, \<^verbatim>\<open>null\<close> as the empty string, with commas between
  them; the first element that raises makes the whole conversion raise.
\<close>

fun collect :: "(js_error + 'a) list \<Rightarrow> js_error + 'a list" where
  "collect [] = Inr []"
| "collect (Inl e # rs) = Inl e"
| "collect (Inr x # rs) = (case collect rs of Inl e \<Rightarrow> Inl e | Inr xs \<Rightarrow> Inr (x # xs))"

fun js_toString :: "json \<Rightarrow> js_error + string" where
  "js_toString JNull = Inr ''null''"
| "js_toString (JBool b) = Inr (if b then ''true'' else ''false'')"
| "js_toString (JNum t) = Inr t"
| "js_toString (JStr s) = Inr s"
| "js_toString (JArr xs) =
     (case collect (map (\<lambda>x. if x = JNull then Inr [] else js_toString x) xs) of
        Inl e \<Rightarrow> Inl e
      | Inr parts \<Rightarrow> Inr (join_with '','' parts))"
| "js_toString (JObj kvs) =
     (case map_of kvs ''toString'' of
        None \<Rightarrow> Inr ''[object Object]''
      | Some v \<Rightarrow> Inl TypeError)"

fun isArray :: "json \<Rightarrow> bool" where
  "isArray (JArr xs) = True"
| "isArray _ = False"

fun array_items :: "json \<Rightarrow> json list" where
  "array_items (JArr xs) = xs"
| "array_items _ = []"

fun Object_values :: "json \<Rightarrow> json list" where
  "Object_values (JArr xs) = xs"
| "Object_values (JObj kvs) = map snd kvs"
| "Object_values _ = []"

text \<open>\<^verbatim>\<open>Buffer.byteLength(str, "utf-8")\<close>: a code unit below U+0080 is one byte, the others two.\<close>

definition getStringByteSize :: "string \<Rightarrow> nat" where
  "getStringByteSize str = sum_list (map (\<lambda>c. if (of_char c :: nat) < 128 then 1 else 2) str)"

section \<open>The content extractor\<close>

text \<open>
  \<^verbatim>\<open>extractContentRecursively(obj, seen)\<close> of \<^verbatim>\<open>core.ts\<close>. The source mutates one shared
  \<^verbatim>\<open>Set\<close> and returns the array \<^verbatim>\<open>extracted\<close>; the model returns the array together with the
  set as it stands after the call, or the error that the call raises. Nothing inside the
  function catches an error, so an error raised at any depth ends the whole pass. The
  three \<^verbatim>\<open>if\<close> blocks for \<^verbatim>\<open>text\<close>, \<^verbatim>\<open>href\<close> and \<^verbatim>\<open>src\<close> act on the pair of \<^verbatim>\<open>extracted\<close> and
  \<^verbatim>\<open>seen\<close>; only the template literal of the \<^verbatim>\<open>href\<close> block can raise.
\<close>

type_synonym extraction = "string list \<times> string set"

definition extract_text :: "json \<Rightarrow> extraction \<Rightarrow> extraction" where
  "extract_text obj a =
     (case js_get obj ''text'' of
        Some (JStr t) \<Rightarrow>
          if t \<noteq> [] \<and> trim t \<notin> snd a then (fst a @ [trim t], insert (trim t) (snd a)) else a
      | _ \<Rightarrow> a)"

text \<open>\<^verbatim>\<open>`${obj.text || "Link"}`\<close>\<close>

definition link_label :: "json \<Rightarrow> js_error + string" where
  "link_label obj =
     (case js_get obj ''text'' of
        Some t \<Rightarrow> if js_truthy t then js_toString t else Inr ''Link''
      | None \<Rightarrow> Inr ''Link'')"

definition extract_href :: "json \<Rightarrow> extraction \<Rightarrow> js_error + extraction" where
  "extract_href obj a =
     (case js_get obj ''href'' of
        Some (JStr h) \<Rightarrow>
          if h \<noteq> [] \<and> h \<notin> snd a
          then (case link_label obj of
                  Inl e \<Rightarrow> Inl e
                | Inr label \<Rightarrow> Inr (fst a @ [label @ '': '' @ h], insert h (snd a)))
          else Inr a
      | _ \<Rightarrow> Inr a)"

definition extract_src :: "json \<Rightarrow> extraction \<Rightarrow> extraction" where
  "extract_src obj a =
     (case js_get obj ''src'' of
        Some (JStr s) \<Rightarrow>
          if s \<noteq> [] \<and> s \<notin> snd a then (fst a @ [''Image: '' @ s], insert s (snd a)) else a
      | _ \<Rightarrow> a)"

text \<open>The three blocks in the order of the source, from an empty \<^verbatim>\<open>extracted\<close>.\<close>

definition extract_fields :: "json \<Rightarrow> string set \<Rightarrow> js_error + extraction" where
  "extract_fields obj seen =
     (case extract_href obj (extract_text obj ([], seen)) of
        Inl e \<Rightarrow> Inl e
      | Inr a \<Rightarrow> Inr (extract_src obj a))"

function extractContentRecursively :: "json \<Rightarrow> string set \<Rightarrow> js_error + extraction"
  and forEach_extract :: "json list \<Rightarrow> string set \<Rightarrow> js_error + extraction"
where
  "extractContentRecursively obj seen =
     (if \<not> js_truthy obj \<or> js_typeof obj \<noteq> ''object'' then Inr ([], seen)
      else let objKey = JSON_stringify obj in
        if objKey \<in> seen then Inr ([], seen)
        else
          case extract_fields obj (insert objKey seen) of
            Inl e \<Rightarrow> Inl e
          | Inr a1 \<Rightarrow>
              (case (if isArray obj
                     then (case forEach_extract (array_items obj) (snd a1) of
                             Inl e \<Rightarrow> Inl e
                           | Inr r \<Rightarrow> Inr (fst a1 @ fst r, snd r))
                     else Inr a1) of
                 Inl e \<Rightarrow> Inl e
               | Inr a2 \<Rightarrow>
                   (case forEach_extract (Object_values obj) (snd a2) of
                      Inl e \<Rightarrow> Inl e
                    | Inr r3 \<Rightarrow> Inr (fst a2 @ fst r3, snd r3))))"
| "forEach_extract [] seen = Inr ([], seen)"
| "forEach_extract (item # items) seen =
     (case extractContentRecursively item seen of
        Inl e \<Rightarrow> Inl e
      | Inr r \<Rightarrow>
          (case forEach_extract items (snd r) of
             Inl e \<Rightarrow> Inl e
           | Inr rs \<Rightarrow> Inr (fst r @ fst rs, snd rs)))"
  by pat_completeness auto
termination
proof -
  have values_smaller: "size_list size (Object_values obj) < size obj"
    if "js_truthy obj" "js_typeof obj = ''object''" for obj
  proof (cases obj)
    case (JObj kvs)
    have "size_list size (map snd kvs) \<le> size_list (size_prod (\<lambda>_. 0) size) kvs"
      by (induction kvs) auto
    with JObj show ?thesis by simp
  qed (use that in auto)
  have items_smaller: "size_list size (array_items obj) < size obj"
    if "js_truthy obj" "js_typeof obj = ''object''" for obj
    using that by (cases obj) auto
  show ?thesis
    by (relation "measure (\<lambda>x. case x of Inl (obj, seen) \<Rightarrow> size obj
                                       | Inr (items, seen) \<Rightarrow> size_list size items)")
       (auto simp: values_smaller items_smaller)
qed

declare extractContentRecursively.simps [simp del]

text \<open>A pass as the page handler starts it: \<^verbatim>\<open>extractContentRecursively(documentData)\<close>,
  the seen-set defaulting to a fresh empty one. The result is the returned array, or the
  error.\<close>

definition extract_pass :: "json \<Rightarrow> js_error + string list" where
  "extract_pass node =
     (case extractContentRecursively node {} of Inl e \<Rightarrow> Inl e | Inr r \<Rightarrow> Inr (fst r))"

subsection \<open>Where each fragment comes from\<close>

text \<open>
  The source returns plain strings, so a fragment does not say which field value produced
  it. The functions below repeat the extractor line by line and differ in one thing only:
  each pushed fragment is paired with the value that was added to \<^verbatim>\<open>seen\<close> for it (the
  trimmed text, the href or the src). Erasing the first components gives back the
  extractor; that is proved further down.
\<close>

type_synonym traced = "(string \<times> string) list \<times> string set"

definition trace_text :: "json \<Rightarrow> traced \<Rightarrow> traced" where
  "trace_text obj a =
     (case js_get obj ''text'' of
        Some (JStr t) \<Rightarrow>
          if t \<noteq> [] \<and> trim t \<notin> snd a
          then (fst a @ [(trim t, trim t)], insert (trim t) (snd a)) else a
      | _ \<Rightarrow> a)"

definition trace_href :: "json \<Rightarrow> traced \<Rightarrow> js_error + traced" where
  "trace_href obj a =
     (case js_get obj ''href'' of
        Some (JStr h) \<Rightarrow>
          if h \<noteq> [] \<and> h \<notin> snd a
          then (case link_label obj of
                  Inl e \<Rightarrow> Inl e
                | Inr label \<Rightarrow> Inr (fst a @ [(h, label @ '': '' @ h)], insert h (snd a)))
          else Inr a
      | _ \<Rightarrow> Inr a)"

definition trace_src :: "json \<Rightarrow> traced \<Rightarrow> traced" where
  "trace_src obj a =
     (case js_get obj ''src'' of
        Some (JStr s) \<Rightarrow>
          if s \<noteq> [] \<and> s \<notin> snd a
          then (fst a @ [(s, ''Image: '' @ s)], insert s (snd a)) else a
      | _ \<Rightarrow> a)"

definition trace_fields :: "json \<Rightarrow> string set \<Rightarrow> js_error + traced" where
  "trace_fields obj seen =
     (case trace_href obj (trace_text obj ([], seen)) of
        Inl e \<Rightarrow> Inl e
      | Inr a \<Rightarrow> Inr (trace_src obj a))"

function traceContentRecursively :: "json \<Rightarrow> string set \<Rightarrow> js_error + traced"
  and forEach_trace :: "json list \<Rightarrow> string set \<Rightarrow> js_error + traced"
where
  "traceContentRecursively obj seen =
     (if \<not> js_truthy obj \<or> js_typeof obj \<noteq> ''object'' then Inr ([], seen)
      else let objKey = JSON_stringify obj in
        if objKey \<in> seen then Inr ([], seen)
        else
          case trace_fields obj (insert objKey seen) of
            Inl e \<Rightarrow> Inl e
          | Inr a1 \<Rightarrow>
              (case (if isArray obj
                     then (case forEach_trace (array_items obj) (snd a1) of
                             Inl e \<Rightarrow> Inl e
                           | Inr r \<Rightarrow> Inr (fst a1 @ fst r, snd r))
                     else Inr a1) of
                 Inl e \<Rightarrow> Inl e
               | Inr a2 \<Rightarrow>
                   (case forEach_trace (Object_values obj) (snd a2) of
                      Inl e \<Rightarrow> Inl e
                    | Inr r3 \<Rightarrow> Inr (fst a2 @ fst r3, snd r3))))"
| "forEach_trace [] seen = Inr ([], seen)"
| "forEach_trace (item # items) seen =
     (case traceContentRecursively item seen of
        Inl e \<Rightarrow> Inl e
      | Inr r \<Rightarrow>
          (case forEach_trace items (snd r) of
             Inl e \<Rightarrow> Inl e
           | Inr rs \<Rightarrow> Inr (fst r @ fst rs, snd rs)))"
  by pat_completeness auto
termination
proof -
  have values_smaller: "size_list size (Object_values obj) < size obj"
    if "js_truthy obj" "js_typeof obj = ''object''" for obj
  proof (cases obj)
    case (JObj kvs)
    have "size_list size (map snd kvs) \<le> size_list (size_prod (\<lambda>_. 0) size) kvs"
      by (induction kvs) auto
    with JObj show ?thesis by simp
  qed (use that in auto)
  have items_smaller: "size_list size (array_items obj) < size obj"
    if "js_truthy obj" "js_typeof obj = ''object''" for obj
    using that by (cases obj) auto
  show ?thesis
    by (relation "measure (\<lambda>x. case x of Inl (obj, seen) \<Rightarrow> size obj
                                       | Inr (items, seen) \<Rightarrow> size_list size items)")
       (auto simp: values_smaller items_smaller)
qed

declare traceContentRecursively.simps [simp del]

subsection \<open>What a pass can add to the seen-set\<close>

text \<open>
  The composite nodes of a tree, the root included, and the strings one node can put into
  \<^verbatim>\<open>seen\<close>: its serialization, its trimmed \<^verbatim>\<open>text\<close>, its \<^verbatim>\<open>href\<close> and its \<^verbatim>\<open>src\<close>.
\<close>

fun sub_nodes :: "json \<Rightarrow> json list" where
  "sub_nodes (JArr xs) = JArr xs # concat (map sub_nodes xs)"
| "sub_nodes (JObj kvs) = JObj kvs # concat (map (\<lambda>(k, v). sub_nodes v) kvs)"
| "sub_nodes v = []"

definition field_values :: "json \<Rightarrow> string set" where
  "field_values obj =
     (case js_get obj ''text'' of Some (JStr t) \<Rightarrow> {trim t} | _ \<Rightarrow> {})
     \<union> (case js_get obj ''href'' of Some (JStr h) \<Rightarrow> {h} | _ \<Rightarrow> {})
     \<union> (case js_get obj ''src'' of Some (JStr s) \<Rightarrow> {s} | _ \<Rightarrow> {})"

definition pass_keys :: "json \<Rightarrow> string set" where
  "pass_keys node = (\<Union>m \<in> set (sub_nodes node). insert (JSON_stringify m) (field_values m))"

subsection \<open>Vocabulary for the statements about the extractor\<close>

text \<open>The values that pass the first test of the extractor: arrays and objects.\<close>

definition is_composite :: "json \<Rightarrow> bool" where
  "is_composite obj \<longleftrightarrow> js_truthy obj \<and> js_typeof obj = ''object''"

text \<open>
  How the seen-set \<open>s1\<close> after visiting the nodes \<open>nodes\<close> relates to the set \<open>s0\<close> before:
  nothing is removed, nothing but keys of the visited trees is added, and every visited
  composite node has its serialization in the set.
\<close>

definition pass_ok :: "json list \<Rightarrow> string set \<Rightarrow> string set \<Rightarrow> bool" where
  "pass_ok nodes s0 s1 \<longleftrightarrow>
     s0 \<subseteq> s1 \<and> s1 \<subseteq> s0 \<union> \<Union> (pass_keys ` set nodes)
     \<and> JSON_stringify ` {x \<in> set nodes. is_composite x} \<subseteq> s1"

text \<open>
  The invariant of a traced pass that started from the seen-set \<open>s0\<close>: the values that
  produced fragments are pairwise different, were not in \<open>s0\<close>, and are in the set now.
\<close>

definition origins_ok :: "string set \<Rightarrow> traced \<Rightarrow> bool" where
  "origins_ok s0 a \<longleftrightarrow>
     s0 \<subseteq> snd a \<and> fst ` set (fst a) \<subseteq> snd a - s0 \<and> distinct (map fst (fst a))"

definition erase :: "traced \<Rightarrow> extraction" where
  "erase a = (map snd (fst a), snd a)"

text \<open>Erasing the origins of a traced result; an error stays what it is.\<close>

definition erase_result :: "js_error + traced \<Rightarrow> js_error + extraction" where
  "erase_result r = (case r of Inl e \<Rightarrow> Inl e | Inr t \<Rightarrow> Inr (erase t))"

text \<open>
  A tree in which the label of every composite node converts to a string: no \<^verbatim>\<open>text\<close> is an
  object with an own property \<^verbatim>\<open>toString\<close>, or an array that holds one.
\<close>

definition label_ok :: "json \<Rightarrow> bool" where
  "label_ok obj \<longleftrightarrow> link_label obj \<noteq> Inl TypeError"

definition labels_ok :: "json \<Rightarrow> bool" where
  "labels_ok node \<longleftrightarrow> list_all label_ok (sub_nodes node)"

text \<open>
  A node with a link whose \<^verbatim>\<open>text\<close> is an object with an own property \<^verbatim>\<open>toString\<close>:
  \<^verbatim>\<open>{"href": "h", "text": {"toString": 0}}\<close>. The same node with a string as text, for
  comparison.
\<close>

definition raising_node :: json where
  "raising_node = JObj [(''href'', JStr ''h''), (''text'', JObj [(''toString'', JNum ''0'')])]"

definition plain_node :: json where
  "plain_node = JObj [(''href'', JStr ''h''), (''text'', JStr ''t'')]"

text \<open>
  Two sibling nodes that differ: the text of the first is, character for character, the
  serialization of the second.
\<close>

definition collide_first :: json where
  \<open>collide_first = JObj [(''text'', JStr ''{"text":"x"}'')]\<close>

definition collide_second :: json where
  "collide_second = JObj [(''text'', JStr ''x'')]"

section \<open>The batch writer\<close>

text \<open>
  The options of \<^verbatim>\<open>Config\<close> that \<^verbatim>\<open>write\<close> reads. \<open>None\<close> is an option left out. Both limits
  have the type \<^verbatim>\<open>number\<close>; the file size is given in megabytes and may be a fraction.
\<close>

record config =
  outputFileName :: string
  maxFileSize :: "rat option"
  maxTokens :: "nat option"

text \<open>
  \<^verbatim>\<open>config.maxFileSize ? config.maxFileSize * 1024 * 1024 : Infinity\<close> and
  \<^verbatim>\<open>config.maxTokens || Infinity\<close>; \<open>None\<close> is \<^verbatim>\<open>Infinity\<close>. Zero is falsy.
\<close>

definition maxBytes :: "config \<Rightarrow> rat option" where
  "maxBytes cfg =
     (case maxFileSize cfg of
        None \<Rightarrow> None
      | Some m \<Rightarrow> if m = 0 then None else Some (m * 1024 * 1024))"

definition tokenLimit :: "config \<Rightarrow> nat option" where
  "tokenLimit cfg =
     (case maxTokens cfg of
        None \<Rightarrow> None
      | Some t \<Rightarrow> if t = 0 then None else Some t)"

text \<open>
  Modelled from the spec: \<^verbatim>\<open>isWithinTokenLimit\<close> is imported from the package
  \<^verbatim>\<open>gpt-tokenizer\<close>, which is not part of the sources. The spec describes it as a
  token-counting function that returns either a numeric count, if within the ceiling, or
  a sentinel meaning that the text exceeds the ceiling by itself. The tokenizer's count is
  the parameter \<open>countTokens\<close>; \<open>None\<close> is the sentinel \<^verbatim>\<open>false\<close>.
\<close>

definition isWithinTokenLimit :: "(string \<Rightarrow> nat) \<Rightarrow> string \<Rightarrow> nat option \<Rightarrow> nat option" where
  "isWithinTokenLimit countTokens text_in limit =
     (case limit of
        None \<Rightarrow> Some (countTokens text_in)
      | Some l \<Rightarrow> if countTokens text_in > l then None else Some (countTokens text_in))"

text \<open>
  The variables that the closures of \<^verbatim>\<open>write\<close> share, and the calls of \<^verbatim>\<open>writeFile\<close> made so
  far, oldest first: the path and the array handed to \<^verbatim>\<open>JSON.stringify(_, null, 2)\<close>. The
  text that reaches the disk is \<open>file_text\<close> of that array.
\<close>

record writer =
  currentResults :: "json list"
  currentSize :: nat
  fileCounter :: nat
  estimatedTokens :: nat
  nextFileNameString :: string
  written :: "(string \<times> json list) list"

definition file_text :: "json list \<Rightarrow> string" where
  "file_text batch = JSON_stringify_indent 0 (JArr batch)"

text \<open>\<^verbatim>\<open>config.outputFileName.replace(/\.json$/, "")\<close>\<close>

definition strip_json_suffix :: "string \<Rightarrow> string" where
  "strip_json_suffix s =
     (if 5 \<le> length s \<and> drop (length s - 5) s = ''.json'' then take (length s - 5) s else s)"

definition nextFileName :: "config \<Rightarrow> writer \<Rightarrow> string" where
  "nextFileName cfg w =
     strip_json_suffix (outputFileName cfg) @ ''-'' @ digits10 (fileCounter w) @ ''.json''"

definition writeBatchToFile :: "config \<Rightarrow> writer \<Rightarrow> writer" where
  "writeBatchToFile cfg w =
     w\<lparr>nextFileNameString := nextFileName cfg w,
       written := written w @ [(nextFileName cfg w, currentResults w)],
       currentResults := [],
       currentSize := 0,
       fileCounter := fileCounter w + 1\<rparr>"

text \<open>
  The two comparisons of \<^verbatim>\<open>addContentOrSplit\<close>. Against \<^verbatim>\<open>undefined\<close> (no \<^verbatim>\<open>maxTokens\<close>) and
  against \<^verbatim>\<open>Infinity\<close> (no \<^verbatim>\<open>maxFileSize\<close>) the comparison is false.
\<close>

definition tokens_exceed :: "nat \<Rightarrow> nat option \<Rightarrow> bool" where
  "tokens_exceed n bound = (case bound of None \<Rightarrow> False | Some t \<Rightarrow> n > t)"

definition bytes_exceed :: "nat \<Rightarrow> rat option \<Rightarrow> bool" where
  "bytes_exceed n bound = (case bound of None \<Rightarrow> False | Some b \<Rightarrow> of_nat n > b)"

text \<open>
  \<^verbatim>\<open>addContentOrSplit\<close> in its two parts: the block under
  \<^verbatim>\<open>if (typeof tokenCount === "number")\<close>, and the byte accounting that follows it.
\<close>

definition addTokens :: "config \<Rightarrow> json \<Rightarrow> nat option \<Rightarrow> writer \<Rightarrow> writer" where
  "addTokens cfg data tokenCount w =
     (case tokenCount of
        Some n \<Rightarrow>
          if tokens_exceed (estimatedTokens w + n) (maxTokens cfg) then
            (let w1 = (if length (currentResults w) > 0 then writeBatchToFile cfg w else w)
             in w1\<lparr>estimatedTokens := n div 2, currentResults := currentResults w1 @ [data]\<rparr>)
          else w\<lparr>currentResults := currentResults w @ [data],
                 estimatedTokens := estimatedTokens w + n\<rparr>
      | None \<Rightarrow> w)"

definition addBytes :: "config \<Rightarrow> string \<Rightarrow> writer \<Rightarrow> writer" where
  "addBytes cfg contentString w =
     (let w1 = w\<lparr>currentSize := currentSize w + getStringByteSize contentString\<rparr>
      in if bytes_exceed (currentSize w1) (maxBytes cfg) then writeBatchToFile cfg w1 else w1)"

definition addContentOrSplit :: "(string \<Rightarrow> nat) \<Rightarrow> config \<Rightarrow> json \<Rightarrow> writer \<Rightarrow> writer" where
  "addContentOrSplit countTokens cfg data w =
     (let contentString = JSON_stringify data;
          tokenCount = isWithinTokenLimit countTokens contentString (tokenLimit cfg)
      in addBytes cfg contentString (addTokens cfg data tokenCount w))"

text \<open>
  \<^verbatim>\<open>write(config)\<close> over the records parsed from the intermediate files, in the order the
  glob lists them. The result is the final state: \<open>nextFileNameString\<close> is the value the
  source returns, \<open>written\<close> the files it has produced.
\<close>

definition write_init :: writer where
  "write_init =
     \<lparr>currentResults = [], currentSize = 0, fileCounter = 1, estimatedTokens = 0,
      nextFileNameString = [], written = []\<rparr>"

definition write_fn :: "(string \<Rightarrow> nat) \<Rightarrow> config \<Rightarrow> json list \<Rightarrow> writer" where
  "write_fn countTokens cfg jsonFiles =
     (let w = fold (addContentOrSplit countTokens cfg) jsonFiles write_init
      in if length (currentResults w) > 0 then writeBatchToFile cfg w else w)"

subsection \<open>Vocabulary and example inputs for the statements about the writer\<close>

text \<open>The number \<^verbatim>\<open>addContentOrSplit\<close> adds to \<^verbatim>\<open>currentSize\<close> for a record.\<close>

definition record_size :: "json \<Rightarrow> nat" where
  "record_size data = getStringByteSize (JSON_stringify data)"

text \<open>
  A page record of 34 characters, and configurations with a token ceiling of 10 or 50 and
  no file size. In the examples the tokenizer is \<open>length\<close>: one token per character.
\<close>

definition page_record :: json where
  "page_record = JObj [(''title'', JStr ''A''), (''url'', JStr ''u''), (''text'', JStr ''t'')]"

definition cfg_tokens_only :: config where
  "cfg_tokens_only =
     \<lparr>outputFileName = ''output.json'', maxFileSize = None, maxTokens = Some 10\<rparr>"

definition cfg_tokens_50 :: config where
  "cfg_tokens_50 =
     \<lparr>outputFileName = ''output.json'', maxFileSize = None, maxTokens = Some 50\<rparr>"

text \<open>
  A record whose serialization has 1048576 bytes, and configurations with a file size of
  1 MB, without a token ceiling and with one of 1000 tokens.
\<close>

definition mb_record :: json where
  "mb_record = JObj [(''text'', JStr (replicate 1048565 (CHR ''a'')))]"

definition cfg_1MB :: config where
  "cfg_1MB = \<lparr>outputFileName = ''output.json'', maxFileSize = Some 1, maxTokens = None\<rparr>"

definition cfg_1MB_tokens :: config where
  "cfg_1MB_tokens =
     \<lparr>outputFileName = ''output.json'', maxFileSize = Some 1, maxTokens = Some 1000\<rparr>"

text \<open>
  A record whose serialization has 102400 bytes (100 KB), and a configuration with a file
  size of 250 KB, that is 250/1024 MB or 256000 bytes, and no token ceiling.
\<close>

definition big_record :: json where
  "big_record = JObj [(''text'', JStr (replicate 102389 (CHR ''a'')))]"

definition cfg_250KB :: config where
  "cfg_250KB =
     \<lparr>outputFileName = ''output.json'', maxFileSize = Some (250 / 1024), maxTokens = None\<rparr>"

text \<open>
  The byte bound of one written batch: the sizes of its records add up to at most \<open>B\<close>
  plus the size of its last record.
\<close>

definition file_ok :: "rat \<Rightarrow> json list \<Rightarrow> bool" where
  "file_ok B batch \<longleftrightarrow>
     of_nat (sum_list (map record_size batch))
       \<le> B + of_nat (if batch = [] then 0 else record_size (last batch))"

text \<open>
  The invariant of the writer between two calls of \<^verbatim>\<open>addContentOrSplit\<close>, and the weaker
  one that holds inside a call, after the token block and before the byte accounting.
\<close>

definition bytes_inv :: "rat \<Rightarrow> writer \<Rightarrow> bool" where
  "bytes_inv B w \<longleftrightarrow>
     of_nat (currentSize w) \<le> B
     \<and> sum_list (map record_size (currentResults w)) \<le> currentSize w
     \<and> list_all (\<lambda>f. file_ok B (snd f)) (written w)"

definition mid_inv :: "rat \<Rightarrow> json \<Rightarrow> writer \<Rightarrow> bool" where
  "mid_inv B data w \<longleftrightarrow>
     rat_of_nat (currentSize w) \<le> B
     \<and> list_all (\<lambda>f. file_ok B (snd f)) (written w)
     \<and> (sum_list (map record_size (currentResults w)) \<le> currentSize w
        \<or> (\<exists>batch. currentResults w = batch @ [data]
                    \<and> sum_list (map record_size batch) \<le> currentSize w))"

text \<open>
  Batches that hold only records with a numeric token count, and the writer states whose
  batch and written files are all of this kind.
\<close>

definition numeric_only :: "(string \<Rightarrow> nat) \<Rightarrow> config \<Rightarrow> json list \<Rightarrow> bool" where
  "numeric_only countTokens cfg batch \<longleftrightarrow>
     list_all (\<lambda>d. isWithinTokenLimit countTokens (JSON_stringify d) (tokenLimit cfg) \<noteq> None) batch"

definition numeric_inv :: "(string \<Rightarrow> nat) \<Rightarrow> config \<Rightarrow> writer \<Rightarrow> bool" where
  "numeric_inv countTokens cfg w \<longleftrightarrow>
     numeric_only countTokens cfg (currentResults w)
     \<and> list_all (\<lambda>f. numeric_only countTokens cfg (snd f)) (written w)"

section \<open>Properties of the extractor\<close>

lemma extract_seen_skip:
  "JSON_stringify obj \<in> seen \<Longrightarrow> extractContentRecursively obj seen = Inr ([], seen)"
  by (simp add: extractContentRecursively.simps Let_def)

lemma extract_not_composite:
  "\<not> is_composite obj \<Longrightarrow> extractContentRecursively obj seen = Inr ([], seen)"
  by (auto simp: extractContentRecursively.simps is_composite_def)

subsection \<open>The seen-set over a pass\<close>

lemma extract_text_seen:
  "snd (extract_text obj a) = snd a
   \<or> (\<exists>t. js_get obj ''text'' = Some (JStr t) \<and> snd (extract_text obj a) = insert (trim t) (snd a))"
  by (simp add: extract_text_def split: option.split json.split)

lemma extract_href_seen:
  "extract_href obj a = Inr b \<Longrightarrow>
   snd b = snd a \<or> (\<exists>h. js_get obj ''href'' = Some (JStr h) \<and> snd b = insert h (snd a))"
  by (auto simp: extract_href_def split: option.splits json.splits if_splits sum.splits)

lemma extract_src_seen:
  "snd (extract_src obj a) = snd a
   \<or> (\<exists>s. js_get obj ''src'' = Some (JStr s) \<and> snd (extract_src obj a) = insert s (snd a))"
  by (simp add: extract_src_def split: option.split json.split)

lemma field_values_member:
  "js_get obj ''text'' = Some (JStr t) \<Longrightarrow> trim t \<in> field_values obj"
  "js_get obj ''href'' = Some (JStr h) \<Longrightarrow> h \<in> field_values obj"
  "js_get obj ''src'' = Some (JStr s) \<Longrightarrow> s \<in> field_values obj"
  by (simp_all add: field_values_def)

lemma extract_text_bounds:
  "snd a \<subseteq> snd (extract_text obj a)" "snd (extract_text obj a) \<subseteq> snd a \<union> field_values obj"
proof -
  from extract_text_seen[of obj a]
  have "snd a \<subseteq> snd (extract_text obj a) \<and> snd (extract_text obj a) \<subseteq> snd a \<union> field_values obj"
  proof
    assume "snd (extract_text obj a) = snd a"
    then show ?thesis by simp
  next
    assume "\<exists>t. js_get obj ''text'' = Some (JStr t) \<and> snd (extract_text obj a) = insert (trim t) (snd a)"
    then obtain t where "js_get obj ''text'' = Some (JStr t)"
      and "snd (extract_text obj a) = insert (trim t) (snd a)" by blast
    then show ?thesis using field_values_member(1)[of obj t] by auto
  qed
  then show "snd a \<subseteq> snd (extract_text obj a)"
    and "snd (extract_text obj a) \<subseteq> snd a \<union> field_values obj" by simp_all
qed

lemma extract_href_bounds:
  assumes "extract_href obj a = Inr b"
  shows "snd a \<subseteq> snd b" "snd b \<subseteq> snd a \<union> field_values obj"
proof -
  from extract_href_seen[OF assms]
  have "snd a \<subseteq> snd b \<and> snd b \<subseteq> snd a \<union> field_values obj"
  proof
    assume "snd b = snd a"
    then show ?thesis by simp
  next
    assume "\<exists>h. js_get obj ''href'' = Some (JStr h) \<and> snd b = insert h (snd a)"
    then obtain h where "js_get obj ''href'' = Some (JStr h)" and "snd b = insert h (snd a)"
      by blast
    then show ?thesis using field_values_member(2)[of obj h] by auto
  qed
  then show "snd a \<subseteq> snd b" and "snd b \<subseteq> snd a \<union> field_values obj" by simp_all
qed

lemma extract_src_bounds:
  "snd a \<subseteq> snd (extract_src obj a)" "snd (extract_src obj a) \<subseteq> snd a \<union> field_values obj"
proof -
  from extract_src_seen[of obj a]
  have "snd a \<subseteq> snd (extract_src obj a) \<and> snd (extract_src obj a) \<subseteq> snd a \<union> field_values obj"
  proof
    assume "snd (extract_src obj a) = snd a"
    then show ?thesis by simp
  next
    assume "\<exists>s. js_get obj ''src'' = Some (JStr s) \<and> snd (extract_src obj a) = insert s (snd a)"
    then obtain s where "js_get obj ''src'' = Some (JStr s)"
      and "snd (extract_src obj a) = insert s (snd a)" by blast
    then show ?thesis using field_values_member(3)[of obj s] by auto
  qed
  then show "snd a \<subseteq> snd (extract_src obj a)"
    and "snd (extract_src obj a) \<subseteq> snd a \<union> field_values obj" by simp_all
qed

lemma extract_fields_bounds:
  assumes "extract_fields obj s = Inr a1"
  shows "s \<subseteq> snd a1" "snd a1 \<subseteq> s \<union> field_values obj"
proof -
  from assms obtain b where b: "extract_href obj (extract_text obj ([], s)) = Inr b"
    and a1: "a1 = extract_src obj b"
    by (auto simp: extract_fields_def split: sum.splits)
  note t = extract_text_bounds[where a = "([], s)" and obj = obj]
  note h = extract_href_bounds[OF b]
  note r = extract_src_bounds[where a = b and obj = obj]
  show "s \<subseteq> snd a1"
    using t(1) h(1) r(1) unfolding a1 by auto
  show "snd a1 \<subseteq> s \<union> field_values obj"
    using t(2) h(2) r(2) unfolding a1 by auto
qed

lemma pass_keys_composite:
  "is_composite obj \<Longrightarrow>
     pass_keys obj = insert (JSON_stringify obj) (field_values obj) \<union> \<Union> (pass_keys ` set (Object_values obj))"
proof (cases obj)
  case (JObj kvs)
  have "set (sub_nodes (JObj kvs)) = insert (JObj kvs) (\<Union>x \<in> set (map snd kvs). set (sub_nodes x))"
    by (simp add: case_prod_beta)
  with JObj show ?thesis
    by (simp add: pass_keys_def)
qed (auto simp: pass_keys_def is_composite_def)

lemma array_items_values: "isArray obj \<Longrightarrow> array_items obj = Object_values obj"
  by (cases obj) auto

lemma array_items_not_array: "\<not> isArray obj \<Longrightarrow> array_items obj = []"
  by (cases obj) auto

lemma extract_processed:
  assumes "is_composite obj" "JSON_stringify obj \<notin> seen"
  shows "extractContentRecursively obj seen =
     (case extract_fields obj (insert (JSON_stringify obj) seen) of
        Inl e \<Rightarrow> Inl e
      | Inr a1 \<Rightarrow>
          (case forEach_extract (array_items obj) (snd a1) of
             Inl e \<Rightarrow> Inl e
           | Inr r2 \<Rightarrow>
               (case forEach_extract (Object_values obj) (snd r2) of
                  Inl e \<Rightarrow> Inl e
                | Inr r3 \<Rightarrow> Inr (fst a1 @ fst r2 @ fst r3, snd r3))))"
  using assms
  by (subst extractContentRecursively.simps)
     (simp add: Let_def is_composite_def array_items_not_array split: sum.split)

lemma pass_ok_trans:
  "pass_ok xs s0 s1 \<Longrightarrow> pass_ok ys s1 s2 \<Longrightarrow> pass_ok (xs @ ys) s0 s2"
  unfolding pass_ok_def by auto

lemma extract_pass_ok:
  "extractContentRecursively obj seen = Inr r \<Longrightarrow> pass_ok [obj] seen (snd r)"
  "forEach_extract items seen = Inr r' \<Longrightarrow> pass_ok items seen (snd r')"
proof (induction obj seen and items seen arbitrary: r and r'
       rule: extractContentRecursively_forEach_extract.induct)
  case (1 obj seen)
  show ?case
  proof (cases "is_composite obj \<and> JSON_stringify obj \<notin> seen")
    case False
    then have "extractContentRecursively obj seen = Inr ([], seen)"
      using extract_not_composite[of obj seen] extract_seen_skip[of obj seen] by blast
    with "1.prems" have "snd r = seen" by auto
    moreover have "JSON_stringify obj \<in> seen" if "is_composite obj"
      using False that by simp
    ultimately show ?thesis
      by (simp add: pass_ok_def image_subset_iff)
  next
    case True
    then have comp: "\<not> (\<not> js_truthy obj \<or> js_typeof obj \<noteq> ''object'')"
      and new: "JSON_stringify obj \<notin> seen"
      by (auto simp: is_composite_def)
    from "1.prems" True obtain a1 r2 r3 where
      a1: "extract_fields obj (insert (JSON_stringify obj) seen) = Inr a1"
      and r2: "forEach_extract (array_items obj) (snd a1) = Inr r2"
      and r3: "forEach_extract (Object_values obj) (snd r2) = Inr r3"
      and r: "r = (fst a1 @ fst r2 @ fst r3, snd r3)"
      by (auto simp: extract_processed split: sum.splits)
    have s1: "insert (JSON_stringify obj) seen \<subseteq> snd a1"
      "snd a1 \<subseteq> insert (JSON_stringify obj) seen \<union> field_values obj"
      using extract_fields_bounds[OF a1] by simp_all
    have ok2: "pass_ok (array_items obj) (snd a1) (snd r2)"
    proof (cases "isArray obj")
      case True
      show ?thesis
        using "1.IH"(1)[OF comp refl new a1 True r2] .
    next
      case False
      with r2 show ?thesis by (auto simp: array_items_not_array pass_ok_def)
    qed
    have a2: "(if isArray obj
               then case forEach_extract (array_items obj) (snd a1) of
                      Inl e \<Rightarrow> Inl e | Inr r \<Rightarrow> Inr (fst a1 @ fst r, snd r)
               else Inr a1) = Inr (fst a1 @ fst r2, snd r2)"
      using r2 by (auto simp: array_items_not_array)
    have ok3: "pass_ok (Object_values obj) (snd r2) (snd r3)"
      using "1.IH"(2)[OF comp refl new a1 a2] r3 by simp
    have sub: "set (array_items obj) \<subseteq> set (Object_values obj)"
      by (cases obj) auto
    define K where "K = \<Union> (pass_keys ` set (Object_values obj))"
    define K2 where "K2 = \<Union> (pass_keys ` set (array_items obj))"
    have pk: "pass_keys obj = insert (JSON_stringify obj) (field_values obj) \<union> K"
      unfolding K_def using True by (simp add: pass_keys_composite)
    have c2: "snd a1 \<subseteq> snd r2" "snd r2 \<subseteq> snd a1 \<union> K2"
      using ok2 by (simp_all add: pass_ok_def K2_def)
    have c3: "snd r2 \<subseteq> snd r3" "snd r3 \<subseteq> snd r2 \<union> K"
      using ok3 by (simp_all add: pass_ok_def K_def)
    have "seen \<subseteq> snd a1" and "JSON_stringify obj \<in> snd a1"
      using s1(1) by simp_all
    then have lower: "seen \<subseteq> snd r3" and key: "JSON_stringify obj \<in> snd r3"
      using c2(1) c3(1) by blast+
    have "K2 \<subseteq> K"
      unfolding K_def K2_def by (rule Union_mono[OF image_mono[OF sub]])
    with s1(2) c2(2) c3(2) have upper: "snd r3 \<subseteq> seen \<union> pass_keys obj"
      unfolding pk by blast
    show ?thesis
      using lower key upper by (simp add: r pass_ok_def image_subset_iff)
  qed
next
  case (2 seen)
  then show ?case by (auto simp: pass_ok_def)
next
  case (3 item items seen)
  from "3.prems" obtain b rs where b: "extractContentRecursively item seen = Inr b"
    and rs: "forEach_extract items (snd b) = Inr rs" and r': "r' = (fst b @ fst rs, snd rs)"
    by (auto split: sum.splits)
  have "pass_ok [item] seen (snd b)" using "3.IH"(1)[OF b] .
  moreover have "pass_ok items (snd b) (snd rs)" using "3.IH"(2)[OF b rs] .
  ultimately have "pass_ok ([item] @ items) seen (snd rs)"
    by (rule pass_ok_trans)
  then show ?case by (simp add: r')
qed

lemma forEach_all_seen:
  "JSON_stringify ` {x \<in> set items. is_composite x} \<subseteq> seen \<Longrightarrow>
   forEach_extract items seen = Inr ([], seen)"
proof (induction items)
  case Nil
  then show ?case by simp
next
  case (Cons x xs)
  have "extractContentRecursively x seen = Inr ([], seen)"
  proof (cases "is_composite x")
    case True
    with Cons.prems have "JSON_stringify x \<in> seen" by auto
    then show ?thesis by (rule extract_seen_skip)
  next
    case False
    then show ?thesis by (rule extract_not_composite)
  qed
  moreover have "forEach_extract xs seen = Inr ([], seen)"
    using Cons by auto
  ultimately show ?case by simp
qed

lemma forEach_again:
  "forEach_extract items seen = Inr r \<Longrightarrow> forEach_extract items (snd r) = Inr ([], snd r)"
  using extract_pass_ok(2)[of items seen r] by (intro forEach_all_seen) (simp add: pass_ok_def)

lemma extract_processed_once:
  assumes "is_composite obj" "JSON_stringify obj \<notin> seen"
  shows "extractContentRecursively obj seen =
     (case extract_fields obj (insert (JSON_stringify obj) seen) of
        Inl e \<Rightarrow> Inl e
      | Inr a1 \<Rightarrow>
          (case forEach_extract (Object_values obj) (snd a1) of
             Inl e \<Rightarrow> Inl e
           | Inr r \<Rightarrow> Inr (fst a1 @ fst r, snd r)))"
proof (cases "isArray obj")
  case True
  then show ?thesis
    using assms
    by (auto simp: extract_processed array_items_values forEach_again split: sum.splits)
next
  case False
  then show ?thesis
    using assms by (simp add: extract_processed array_items_not_array split: sum.split)
qed

subsection \<open>When a pass returns\<close>

lemma labels_ok_composite:
  assumes "is_composite obj" "labels_ok obj"
  shows "label_ok obj" "list_all labels_ok (Object_values obj)"
proof -
  show "label_ok obj"
    using assms by (cases obj) (auto simp: labels_ok_def is_composite_def)
  show "list_all labels_ok (Object_values obj)"
  proof (cases obj)
    case (JObj kvs)
    have "set (sub_nodes (JObj kvs)) = insert (JObj kvs) (\<Union>x \<in> set (map snd kvs). set (sub_nodes x))"
      by (simp add: case_prod_beta)
    with assms(2) JObj show ?thesis
      by (auto simp: labels_ok_def list_all_iff)
  next
    case (JArr xs)
    with assms(2) show ?thesis
      by (auto simp: labels_ok_def list_all_iff)
  qed (use assms(1) in \<open>auto simp: is_composite_def\<close>)
qed

lemma extract_fields_returns:
  assumes "label_ok obj"
  shows "\<exists>a. extract_fields obj s = Inr a"
proof (cases "link_label obj")
  case (Inl e)
  then have "link_label obj = Inl TypeError" by (cases e) simp
  with assms show ?thesis by (simp add: label_ok_def)
next
  case (Inr label)
  then show ?thesis
    by (simp add: extract_fields_def extract_href_def split: option.split json.split)
qed

lemma extract_returns:
  "labels_ok obj \<Longrightarrow> \<exists>r. extractContentRecursively obj seen = Inr r"
  "list_all labels_ok items \<Longrightarrow> \<exists>r. forEach_extract items seen = Inr r"
proof (induction obj seen and items seen
       rule: extractContentRecursively_forEach_extract.induct)
  case (1 obj seen)
  show ?case
  proof (cases "is_composite obj \<and> JSON_stringify obj \<notin> seen")
    case False
    then have "extractContentRecursively obj seen = Inr ([], seen)"
      using extract_not_composite[of obj seen] extract_seen_skip[of obj seen] by blast
    then show ?thesis by simp
  next
    case True
    then have comp: "\<not> (\<not> js_truthy obj \<or> js_typeof obj \<noteq> ''object'')"
      and new: "JSON_stringify obj \<notin> seen"
      by (auto simp: is_composite_def)
    note ok = labels_ok_composite[OF conjunct1[OF True] "1.prems"]
    obtain a1 where a1: "extract_fields obj (insert (JSON_stringify obj) seen) = Inr a1"
      using extract_fields_returns[OF ok(1)] by blast
    have items_ok: "list_all labels_ok (array_items obj)"
      using ok(2) by (cases obj) auto
    obtain r2 where r2: "forEach_extract (array_items obj) (snd a1) = Inr r2"
    proof (cases "isArray obj")
      case True
      from "1.IH"(1)[OF comp refl new a1 True items_ok] that show ?thesis by blast
    next
      case False
      then show ?thesis using that by (simp add: array_items_not_array)
    qed
    have a2: "(if isArray obj
               then case forEach_extract (array_items obj) (snd a1) of
                      Inl e \<Rightarrow> Inl e | Inr r \<Rightarrow> Inr (fst a1 @ fst r, snd r)
               else Inr a1) = Inr (fst a1 @ fst r2, snd r2)"
      using r2 by (auto simp: array_items_not_array)
    obtain r3 where r3: "forEach_extract (Object_values obj) (snd r2) = Inr r3"
      using "1.IH"(2)[OF comp refl new a1 a2 ok(2)] by auto
    show ?thesis
      using True a1 r2 r3 by (simp add: extract_processed)
  qed
next
  case (2 seen)
  show ?case by simp
next
  case (3 item items seen)
  from "3.prems" have first: "labels_ok item" and rest: "list_all labels_ok items" by simp_all
  from "3.IH"(1)[OF first] obtain b where b: "extractContentRecursively item seen = Inr b" by blast
  from "3.IH"(2)[OF b rest] obtain rs where "forEach_extract items (snd b) = Inr rs" by blast
  with b show ?case by simp
qed

subsection \<open>The traced extractor\<close>

lemma origins_ok_start: "s0 \<subseteq> s \<Longrightarrow> origins_ok s0 ([], s)"
  by (auto simp: origins_ok_def)

lemma origins_ok_text: "origins_ok s0 a \<Longrightarrow> origins_ok s0 (trace_text obj a)"
  by (auto simp: origins_ok_def trace_text_def split: option.splits json.splits)

lemma origins_ok_push:
  "origins_ok s0 a \<Longrightarrow> v \<notin> snd a \<Longrightarrow> origins_ok s0 (fst a @ [(v, f)], insert v (snd a))"
  unfolding origins_ok_def image_subset_iff by fastforce

lemma origins_ok_href:
  assumes "origins_ok s0 a" "trace_href obj a = Inr b"
  shows "origins_ok s0 b"
proof (cases "b = a")
  case True
  with assms(1) show ?thesis by simp
next
  case False
  with assms(2) obtain h label where "h \<notin> snd a"
    and "b = (fst a @ [(h, label @ '': '' @ h)], insert h (snd a))"
    by (auto simp: trace_href_def split: option.splits json.splits if_splits sum.splits)
  with assms(1) show ?thesis by (simp add: origins_ok_push)
qed

lemma origins_ok_src: "origins_ok s0 a \<Longrightarrow> origins_ok s0 (trace_src obj a)"
  by (auto simp: origins_ok_def trace_src_def split: option.splits json.splits)

lemma origins_ok_fields:
  assumes "trace_fields obj s = Inr a1" "s0 \<subseteq> s"
  shows "origins_ok s0 a1"
proof -
  from assms(1) obtain b where b: "trace_href obj (trace_text obj ([], s)) = Inr b"
    and a1: "a1 = trace_src obj b"
    by (auto simp: trace_fields_def split: sum.splits)
  have "origins_ok s0 (trace_text obj ([], s))"
    by (intro origins_ok_text origins_ok_start assms(2))
  then have "origins_ok s0 b" using b by (rule origins_ok_href)
  then show ?thesis unfolding a1 by (rule origins_ok_src)
qed

lemma origins_ok_append:
  "origins_ok s0 a \<Longrightarrow> origins_ok (snd a) r \<Longrightarrow> origins_ok s0 (fst a @ fst r, snd r)"
  unfolding origins_ok_def image_subset_iff by fastforce

lemma trace_not_composite:
  "\<not> is_composite obj \<Longrightarrow> traceContentRecursively obj seen = Inr ([], seen)"
  by (auto simp: traceContentRecursively.simps is_composite_def)

lemma trace_seen_skip:
  "JSON_stringify obj \<in> seen \<Longrightarrow> traceContentRecursively obj seen = Inr ([], seen)"
  by (simp add: traceContentRecursively.simps Let_def)

lemma trace_processed:
  assumes "is_composite obj" "JSON_stringify obj \<notin> seen"
  shows "traceContentRecursively obj seen =
     (case trace_fields obj (insert (JSON_stringify obj) seen) of
        Inl e \<Rightarrow> Inl e
      | Inr a1 \<Rightarrow>
          (case forEach_trace (array_items obj) (snd a1) of
             Inl e \<Rightarrow> Inl e
           | Inr r2 \<Rightarrow>
               (case forEach_trace (Object_values obj) (snd r2) of
                  Inl e \<Rightarrow> Inl e
                | Inr r3 \<Rightarrow> Inr (fst a1 @ fst r2 @ fst r3, snd r3))))"
  using assms
  by (subst traceContentRecursively.simps)
     (simp add: Let_def is_composite_def array_items_not_array split: sum.split)

lemma trace_origins_ok:
  "traceContentRecursively obj seen = Inr t \<Longrightarrow> origins_ok seen t"
  "forEach_trace items seen = Inr t' \<Longrightarrow> origins_ok seen t'"
proof (induction obj seen and items seen arbitrary: t and t'
       rule: traceContentRecursively_forEach_trace.induct)
  case (1 obj seen)
  show ?case
  proof (cases "is_composite obj \<and> JSON_stringify obj \<notin> seen")
    case False
    then have "traceContentRecursively obj seen = Inr ([], seen)"
      using trace_not_composite[of obj seen] trace_seen_skip[of obj seen] by blast
    with "1.prems" have "t = ([], seen)" by auto
    then show ?thesis by (simp add: origins_ok_start)
  next
    case True
    then have comp: "\<not> (\<not> js_truthy obj \<or> js_typeof obj \<noteq> ''object'')"
      and new: "JSON_stringify obj \<notin> seen"
      by (auto simp: is_composite_def)
    from "1.prems" True obtain a1 r2 r3 where
      a1: "trace_fields obj (insert (JSON_stringify obj) seen) = Inr a1"
      and r2: "forEach_trace (array_items obj) (snd a1) = Inr r2"
      and r3: "forEach_trace (Object_values obj) (snd r2) = Inr r3"
      and t: "t = (fst a1 @ fst r2 @ fst r3, snd r3)"
      by (auto simp: trace_processed split: sum.splits)
    have ok1: "origins_ok seen a1"
      using a1 by (rule origins_ok_fields) auto
    have ok2: "origins_ok (snd a1) r2"
    proof (cases "isArray obj")
      case True
      show ?thesis using "1.IH"(1)[OF comp refl new a1 True r2] .
    next
      case False
      with r2 show ?thesis by (auto simp: array_items_not_array origins_ok_start)
    qed
    have a2: "(if isArray obj
               then case forEach_trace (array_items obj) (snd a1) of
                      Inl e \<Rightarrow> Inl e | Inr r \<Rightarrow> Inr (fst a1 @ fst r, snd r)
               else Inr a1) = Inr (fst a1 @ fst r2, snd r2)"
      using r2 by (auto simp: array_items_not_array)
    have ok3: "origins_ok (snd r2) r3"
      using "1.IH"(2)[OF comp refl new a1 a2] r3 by simp
    have "origins_ok seen (fst a1 @ fst r2, snd r2)"
      using ok1 ok2 by (rule origins_ok_append)
    from origins_ok_append[OF this] ok3
    have "origins_ok seen ((fst a1 @ fst r2) @ fst r3, snd r3)" by simp
    then show ?thesis by (simp add: t)
  qed
next
  case (2 seen)
  then show ?case by (auto simp: origins_ok_start)
next
  case (3 item items seen)
  from "3.prems" obtain b rs where b: "traceContentRecursively item seen = Inr b"
    and rs: "forEach_trace items (snd b) = Inr rs" and t': "t' = (fst b @ fst rs, snd rs)"
    by (auto split: sum.splits)
  have "origins_ok seen b" using "3.IH"(1)[OF b] .
  moreover have "origins_ok (snd b) rs" using "3.IH"(2)[OF b rs] .
  ultimately show ?case unfolding t' by (rule origins_ok_append)
qed

lemma erase_simps: "fst (erase a) = map snd (fst a)" "snd (erase a) = snd a"
  "erase ([], s) = ([], s)" "erase (xs @ ys, s) = (map snd xs @ map snd ys, s)"
  by (simp_all add: erase_def)

lemma erase_eq: "erase t = a \<longleftrightarrow> map snd (fst t) = fst a \<and> snd t = snd a"
  by (cases a) (auto simp: erase_def)

lemma erase_result_simps:
  "erase_result (Inl e) = Inl e" "erase_result (Inr t) = Inr (erase t)"
  by (simp_all add: erase_result_def)

lemma erase_text: "erase (trace_text obj a) = extract_text obj (erase a)"
  by (simp add: erase_def trace_text_def extract_text_def split: option.splits json.splits)

lemma erase_href: "erase_result (trace_href obj a) = extract_href obj (erase a)"
  by (simp add: erase_result_def erase_def trace_href_def extract_href_def
           split: option.splits json.splits sum.splits)

lemma erase_src: "erase (trace_src obj a) = extract_src obj (erase a)"
  by (simp add: erase_def trace_src_def extract_src_def split: option.splits json.splits)

lemma erase_fields: "erase_result (trace_fields obj s) = extract_fields obj s"
proof -
  have eq: "extract_href obj (extract_text obj ([], s))
          = erase_result (trace_href obj (trace_text obj ([], s)))"
    by (simp add: erase_href erase_text erase_simps)
  show ?thesis
  proof (cases "trace_href obj (trace_text obj ([], s))")
    case (Inl e)
    with eq show ?thesis
      by (simp add: trace_fields_def extract_fields_def erase_result_simps)
  next
    case (Inr b)
    with eq show ?thesis
      by (simp add: trace_fields_def extract_fields_def erase_result_simps erase_src)
  qed
qed

lemma erase_forEach_step:
  assumes "erase_result rt = re"
    and "\<And>t. rt = Inr t \<Longrightarrow> erase_result (kt t) = ke (erase t)"
  shows "erase_result (case rt of Inl e \<Rightarrow> Inl e | Inr t \<Rightarrow> kt t)
           = (case re of Inl e \<Rightarrow> Inl e | Inr a \<Rightarrow> ke a)"
  using assms by (cases rt) (auto simp: erase_result_def)

lemma trace_erase:
  "erase_result (traceContentRecursively obj seen) = extractContentRecursively obj seen"
  "erase_result (forEach_trace items seen) = forEach_extract items seen"
proof (induction obj seen and items seen rule: traceContentRecursively_forEach_trace.induct)
  case (1 obj seen)
  show ?case
  proof (cases "is_composite obj \<and> JSON_stringify obj \<notin> seen")
    case False
    then have "traceContentRecursively obj seen = Inr ([], seen)"
      and "extractContentRecursively obj seen = Inr ([], seen)"
      using trace_not_composite[of obj seen] trace_seen_skip[of obj seen]
        extract_not_composite[of obj seen] extract_seen_skip[of obj seen] by blast+
    then show ?thesis by (simp add: erase_result_simps erase_simps)
  next
    case True
    then have comp: "\<not> (\<not> js_truthy obj \<or> js_typeof obj \<noteq> ''object'')"
      and new: "JSON_stringify obj \<notin> seen"
      by (auto simp: is_composite_def)
    have lhs: "traceContentRecursively obj seen =
       (case trace_fields obj (insert (JSON_stringify obj) seen) of
          Inl e \<Rightarrow> Inl e
        | Inr a1 \<Rightarrow>
            (case forEach_trace (array_items obj) (snd a1) of
               Inl e \<Rightarrow> Inl e
             | Inr r2 \<Rightarrow>
                 (case forEach_trace (Object_values obj) (snd r2) of
                    Inl e \<Rightarrow> Inl e
                  | Inr r3 \<Rightarrow> Inr (fst a1 @ fst r2 @ fst r3, snd r3))))"
      using True by (simp add: trace_processed)
    have rhs: "extractContentRecursively obj seen =
       (case extract_fields obj (insert (JSON_stringify obj) seen) of
          Inl e \<Rightarrow> Inl e
        | Inr a1 \<Rightarrow>
            (case forEach_extract (array_items obj) (snd a1) of
               Inl e \<Rightarrow> Inl e
             | Inr r2 \<Rightarrow>
                 (case forEach_extract (Object_values obj) (snd r2) of
                    Inl e \<Rightarrow> Inl e
                  | Inr r3 \<Rightarrow> Inr (fst a1 @ fst r2 @ fst r3, snd r3))))"
      using True by (simp add: extract_processed)
    show ?thesis
      unfolding lhs rhs
    proof (rule erase_forEach_step[OF erase_fields])
      fix a1 assume a1: "trace_fields obj (insert (JSON_stringify obj) seen) = Inr a1"
      have items: "erase_result (forEach_trace (array_items obj) (snd a1))
                     = forEach_extract (array_items obj) (snd (erase a1))"
      proof (cases "isArray obj")
        case True
        show ?thesis
          using "1.IH"(1)[OF comp refl new a1 True] by (simp add: erase_simps)
      next
        case False
        then show ?thesis
          by (simp add: array_items_not_array erase_result_simps erase_simps)
      qed
      show "erase_result
              (case forEach_trace (array_items obj) (snd a1) of
                 Inl e \<Rightarrow> Inl e
               | Inr r2 \<Rightarrow>
                   (case forEach_trace (Object_values obj) (snd r2) of
                      Inl e \<Rightarrow> Inl e
                    | Inr r3 \<Rightarrow> Inr (fst a1 @ fst r2 @ fst r3, snd r3)))
            = (case forEach_extract (array_items obj) (snd (erase a1)) of
                 Inl e \<Rightarrow> Inl e
               | Inr r2 \<Rightarrow>
                   (case forEach_extract (Object_values obj) (snd r2) of
                      Inl e \<Rightarrow> Inl e
                    | Inr r3 \<Rightarrow> Inr (fst (erase a1) @ fst r2 @ fst r3, snd r3)))"
      proof (rule erase_forEach_step[OF items])
        fix r2 assume r2: "forEach_trace (array_items obj) (snd a1) = Inr r2"
        have a2: "(if isArray obj
               then case forEach_trace (array_items obj) (snd a1) of
                      Inl e \<Rightarrow> Inl e | Inr r \<Rightarrow> Inr (fst a1 @ fst r, snd r)
               else Inr a1) = Inr (fst a1 @ fst r2, snd r2)"
          using r2 by (auto simp: array_items_not_array)
        have vals: "erase_result (forEach_trace (Object_values obj) (snd r2))
                      = forEach_extract (Object_values obj) (snd (erase r2))"
          using "1.IH"(2)[OF comp refl new a1 a2] by (simp add: erase_simps)
        show "erase_result
                (case forEach_trace (Object_values obj) (snd r2) of
                   Inl e \<Rightarrow> Inl e
                 | Inr r3 \<Rightarrow> Inr (fst a1 @ fst r2 @ fst r3, snd r3))
              = (case forEach_extract (Object_values obj) (snd (erase r2)) of
                   Inl e \<Rightarrow> Inl e
                 | Inr r3 \<Rightarrow> Inr (fst (erase a1) @ fst (erase r2) @ fst r3, snd r3))"
          by (rule erase_forEach_step[OF vals]) (simp add: erase_result_simps erase_def)
      qed
    qed
  qed
next
  case (2 seen)
  show ?case by (simp add: erase_result_simps erase_simps)
next
  case (3 item items seen)
  show ?case
    unfolding forEach_trace.simps forEach_extract.simps
  proof (rule erase_forEach_step[OF "3.IH"(1)])
    fix b assume b: "traceContentRecursively item seen = Inr b"
    have rest: "erase_result (forEach_trace items (snd b)) = forEach_extract items (snd (erase b))"
      using "3.IH"(2)[OF b] by (simp add: erase_simps)
    show "erase_result
            (case forEach_trace items (snd b) of
               Inl e \<Rightarrow> Inl e | Inr rs \<Rightarrow> Inr (fst b @ fst rs, snd rs))
          = (case forEach_extract items (snd (erase b)) of
               Inl e \<Rightarrow> Inl e | Inr rs \<Rightarrow> Inr (fst (erase b) @ fst rs, snd rs))"
      by (rule erase_forEach_step[OF rest]) (simp add: erase_result_simps erase_def)
  qed
qed

subsection \<open>The claims about the extractor\<close>

text \<open>
  C7. The object with text \<^verbatim>\<open>Hi\<close>, href \<^verbatim>\<open>https://x.test\<close> and src \<^verbatim>\<open>https://x.test/img.png\<close>,
  extracted with a fresh seen-set, gives exactly three fragments in this order: the text,
  the link labelled with the node's own text, and the image reference.
\<close>

theorem extract_scenario_text_href_src:
  "extract_pass (JObj [(''text'', JStr ''Hi''), (''href'', JStr ''https://x.test''),
                       (''src'', JStr ''https://x.test/img.png'')])
     = Inr [''Hi'', ''Hi: https://x.test'', ''Image: https://x.test/img.png'']"
  by (simp add: extract_pass_def extractContentRecursively.simps Let_def extract_fields_def
        extract_text_def extract_href_def extract_src_def link_label_def trim_def
        js_whitespace_def quote_def escape_char_def)

text \<open>
  C8 does not hold of the code. The extractor ends on every JSON tree (its termination is
  proved with its definition), and on null and on every value that is not an object or an
  array it returns no fragment; it also returns whenever every label converts to a string
  (\<open>extract_returns\<close> above). But the \<^verbatim>\<open>href\<close> block builds its label from \<^verbatim>\<open>obj.text\<close> without
  the test \<^verbatim>\<open>typeof obj.text === "string"\<close> that guards the \<^verbatim>\<open>text\<close> block. On
  \<^verbatim>\<open>{"href": "h", "text": {"toString": 0}}\<close> the template literal cannot convert the text
  and the pass raises a \<^verbatim>\<open>TypeError\<close>; with a string as text the same node yields its two
  fragments.
\<close>

theorem extract_raises_on_unprintable_text:
  "js_toString (JObj [(''toString'', JNum ''0'')]) = Inl TypeError
   \<and> extractContentRecursively raising_node {} = Inl TypeError
   \<and> extract_pass raising_node = Inl TypeError
   \<and> extract_pass plain_node = Inr [''t'', ''t: h'']"
  by (simp add: raising_node_def plain_node_def extract_pass_def
        extractContentRecursively.simps Let_def extract_fields_def extract_text_def
        extract_href_def extract_src_def link_label_def trim_def js_whitespace_def quote_def
        escape_char_def)

text \<open>
  C9. No two fragments of one pass come from the same value. The traced extractor behaves
  as the extractor does: it raises when the extractor raises, and otherwise returns the
  same fragments and the same seen-set, each fragment with the trimmed text, href or src
  that produced it. These values are pairwise different, and none of them was in the
  seen-set when the pass began. So a value that has been emitted and marked seen produces
  no fragment again, whichever field of whichever later node carries it.
\<close>

theorem extract_origins_distinct:
  "erase_result (traceContentRecursively node seen) = extractContentRecursively node seen
   \<and> (\<forall>t. traceContentRecursively node seen = Inr t \<longrightarrow>
          distinct (map fst (fst t)) \<and> fst ` set (fst t) \<inter> seen = {})"
proof (intro conjI allI impI)
  show "erase_result (traceContentRecursively node seen) = extractContentRecursively node seen"
    by (rule trace_erase(1))
next
  fix t assume "traceContentRecursively node seen = Inr t"
  then have "origins_ok seen t" by (rule trace_origins_ok(1))
  then show "distinct (map fst (fst t))" and "fst ` set (fst t) \<inter> seen = {}"
    unfolding origins_ok_def by blast+
qed

text \<open>
  The theorem at the node with href \<^verbatim>\<open>h\<close> and text \<^verbatim>\<open>t\<close>, from a seen-set that holds an
  unrelated string: two fragments, from the values \<^verbatim>\<open>t\<close> and \<^verbatim>\<open>h\<close>.
\<close>

theorem extract_origins_distinct_witness:
  "traceContentRecursively plain_node {''u''}
     = Inr ([(''t'', ''t''), (''h'', ''t: h'')], {''h'', ''t'', JSON_stringify plain_node, ''u''})
   \<and> extractContentRecursively plain_node {''u''}
     = Inr ([''t'', ''t: h''], {''h'', ''t'', JSON_stringify plain_node, ''u''})
   \<and> distinct [''t'', ''h''] \<and> {''t'', ''h''} \<inter> {''u''} = ({} :: string set)"
  using extract_origins_distinct[of plain_node "{''u''}"]
  by (simp add: plain_node_def traceContentRecursively.simps extractContentRecursively.simps
        Let_def trace_fields_def trace_text_def trace_href_def trace_src_def
        extract_fields_def extract_text_def extract_href_def extract_src_def link_label_def
        trim_def js_whitespace_def quote_def escape_char_def erase_result_def erase_def)

text \<open>
  C6, as the code has it. A composite node whose serialization is in the seen-set
  contributes nothing, and neither do its descendants; the set stays as it is. A
  composite node whose serialization is not in the set is processed: the serialization is
  marked seen, the node's own text, href and src are examined, then its values are
  visited in order; an error raised on the way ends the pass. The one set holds the
  serializations of visited nodes and the emitted text, href and src values alike, and a
  pass that returns has added nothing else to it. So a node is skipped exactly when its
  serialization equals that of a node visited before or a value emitted before; that it
  differs from every node visited before is not enough.
\<close>

theorem extract_dedup_by_seen_key:
  assumes "is_composite node"
  shows "(JSON_stringify node \<in> seen \<longrightarrow> extractContentRecursively node seen = Inr ([], seen))
    \<and> (JSON_stringify node \<notin> seen \<longrightarrow>
          extractContentRecursively node seen =
            (case extract_fields node (insert (JSON_stringify node) seen) of
               Inl e \<Rightarrow> Inl e
             | Inr a1 \<Rightarrow>
                 (case forEach_extract (Object_values node) (snd a1) of
                    Inl e \<Rightarrow> Inl e
                  | Inr r \<Rightarrow> Inr (fst a1 @ fst r, snd r))))
    \<and> (\<forall>r. extractContentRecursively node seen = Inr r \<longrightarrow>
           snd r \<subseteq> seen \<union> pass_keys node)"
proof (intro conjI impI allI)
  show "extractContentRecursively node seen = Inr ([], seen)" if "JSON_stringify node \<in> seen"
    using that by (rule extract_seen_skip)
  show "extractContentRecursively node seen =
            (case extract_fields node (insert (JSON_stringify node) seen) of
               Inl e \<Rightarrow> Inl e
             | Inr a1 \<Rightarrow>
                 (case forEach_extract (Object_values node) (snd a1) of
                    Inl e \<Rightarrow> Inl e
                  | Inr r \<Rightarrow> Inr (fst a1 @ fst r, snd r)))" if "JSON_stringify node \<notin> seen"
    using assms that by (rule extract_processed_once)
  show "snd r \<subseteq> seen \<union> pass_keys node" if "extractContentRecursively node seen = Inr r" for r
    using extract_pass_ok(1)[OF that] by (simp add: pass_ok_def)
qed

text \<open>
  The theorem at the object whose only property is the text \<^verbatim>\<open>x\<close>: skipped when its
  serialization is in the set, processed from the empty set.
\<close>

theorem extract_dedup_by_seen_key_witness:
  "is_composite collide_second
   \<and> extractContentRecursively collide_second {JSON_stringify collide_second}
       = Inr ([], {JSON_stringify collide_second})
   \<and> extractContentRecursively collide_second {}
       = Inr ([''x''], {JSON_stringify collide_second, ''x''})
   \<and> pass_keys collide_second = {JSON_stringify collide_second, ''x''}"
  using extract_dedup_by_seen_key[of collide_second "{JSON_stringify collide_second}"]
        extract_dedup_by_seen_key[of collide_second "{}"]
  by (simp add: is_composite_def collide_second_def quote_def escape_char_def
        extract_fields_def extract_text_def extract_href_def extract_src_def Let_def trim_def
        js_whitespace_def pass_keys_def field_values_def extract_not_composite insert_commute)

text \<open>
  Against C6 as it is written: in the array of \<open>collide_first\<close> and \<open>collide_second\<close> the two
  elements differ, and no node of the first has the serialization of the second. Still the
  second is skipped whole, because the first has emitted a text equal to that
  serialization: the text \<^verbatim>\<open>x\<close>, which the second yields on its own, is missing from the
  fragments of the array.
\<close>

theorem extract_differing_sibling_skipped:
  \<open>JSON_stringify collide_second \<noteq> JSON_stringify collide_first
   \<and> JSON_stringify collide_second \<notin> JSON_stringify ` set (sub_nodes collide_first)
   \<and> extract_pass collide_second = Inr [''x'']
   \<and> extract_pass (JArr [collide_first, collide_second]) = Inr [''{"text":"x"}'']\<close>
  by (simp add: collide_first_def collide_second_def extract_pass_def
        extractContentRecursively.simps Let_def extract_fields_def extract_text_def
        extract_href_def extract_src_def link_label_def trim_def js_whitespace_def quote_def
        escape_char_def)

section \<open>Properties of the batch writer\<close>

subsection \<open>One step of the writer, field by field\<close>

lemma writeBatchToFile_fields:
  "currentResults (writeBatchToFile cfg w) = []"
  "currentSize (writeBatchToFile cfg w) = 0"
  "estimatedTokens (writeBatchToFile cfg w) = estimatedTokens w"
  "fileCounter (writeBatchToFile cfg w) = fileCounter w + 1"
  "written (writeBatchToFile cfg w) = written w @ [(nextFileName cfg w, currentResults w)]"
  "nextFileNameString (writeBatchToFile cfg w) = nextFileName cfg w"
  by (simp_all add: writeBatchToFile_def)

lemma nextFileName_cong:
  "fileCounter w' = fileCounter w \<Longrightarrow> nextFileName cfg w' = nextFileName cfg w"
  by (simp add: nextFileName_def)

lemma addBytes_fields:
  "estimatedTokens (addBytes cfg c w) = estimatedTokens w"
  "currentResults (addBytes cfg c w) =
     (if bytes_exceed (currentSize w + getStringByteSize c) (maxBytes cfg) then [] else currentResults w)"
  "currentSize (addBytes cfg c w) =
     (if bytes_exceed (currentSize w + getStringByteSize c) (maxBytes cfg) then 0
      else currentSize w + getStringByteSize c)"
  "written (addBytes cfg c w) =
     (if bytes_exceed (currentSize w + getStringByteSize c) (maxBytes cfg)
      then written w @ [(nextFileName cfg w, currentResults w)] else written w)"
  "fileCounter (addBytes cfg c w) =
     (if bytes_exceed (currentSize w + getStringByteSize c) (maxBytes cfg)
      then fileCounter w + 1 else fileCounter w)"
  by (simp_all add: addBytes_def Let_def writeBatchToFile_fields nextFileName_def)

lemma addTokens_fields_None:
  "addTokens cfg data None w = w"
  by (simp add: addTokens_def)

lemma addTokens_fields_overflow:
  assumes "tokens_exceed (estimatedTokens w + n) (maxTokens cfg)"
  shows "estimatedTokens (addTokens cfg data (Some n) w) = n div 2"
    "currentResults (addTokens cfg data (Some n) w) = [data]"
    "written (addTokens cfg data (Some n) w) =
       (if currentResults w = [] then written w
        else written w @ [(nextFileName cfg w, currentResults w)])"
    "fileCounter (addTokens cfg data (Some n) w) =
       (if currentResults w = [] then fileCounter w else fileCounter w + 1)"
    "currentSize (addTokens cfg data (Some n) w) =
       (if currentResults w = [] then currentSize w else 0)"
  using assms by (simp_all add: addTokens_def Let_def writeBatchToFile_fields)

lemma addTokens_fields_fits:
  assumes "\<not> tokens_exceed (estimatedTokens w + n) (maxTokens cfg)"
  shows "estimatedTokens (addTokens cfg data (Some n) w) = estimatedTokens w + n"
    "currentResults (addTokens cfg data (Some n) w) = currentResults w @ [data]"
    "written (addTokens cfg data (Some n) w) = written w"
    "fileCounter (addTokens cfg data (Some n) w) = fileCounter w"
    "currentSize (addTokens cfg data (Some n) w) = currentSize w"
  using assms by (simp_all add: addTokens_def)

subsection \<open>Runs on the example inputs\<close>

lemma page_record_text: \<open>JSON_stringify page_record = ''{"title":"A","url":"u","text":"t"}''\<close>
  by (simp add: page_record_def quote_def escape_char_def)

lemma page_record_size: "record_size page_record = 34"
  by (simp add: record_size_def page_record_text getStringByteSize_def)

lemma sentinel_run:
  "isWithinTokenLimit length (JSON_stringify page_record) (tokenLimit cfg_tokens_only) = None
   \<and> currentResults (addContentOrSplit length cfg_tokens_only page_record write_init) = []
   \<and> estimatedTokens (addContentOrSplit length cfg_tokens_only page_record write_init) = 0
   \<and> written (addContentOrSplit length cfg_tokens_only page_record write_init) = []
   \<and> written (write_fn length cfg_tokens_only [page_record]) = []"
  by (simp add: page_record_text cfg_tokens_only_def write_fn_def write_init_def addContentOrSplit_def
        addTokens_def addBytes_def writeBatchToFile_def isWithinTokenLimit_def tokenLimit_def
        maxBytes_def tokens_exceed_def bytes_exceed_def nextFileName_def strip_json_suffix_def
        getStringByteSize_def Let_def)

lemma quote_plain:
  "quote (replicate n (CHR ''a'')) = CHR 0x22 # replicate n (CHR ''a'') @ [CHR 0x22]"
proof -
  have "concat (map escape_char (replicate n (CHR ''a''))) = replicate n (CHR ''a'')"
    by (induction n) (simp_all add: escape_char_def)
  then show ?thesis unfolding quote_def by simp
qed

lemma byte_size_append: "getStringByteSize (xs @ ys) = getStringByteSize xs + getStringByteSize ys"
  by (simp add: getStringByteSize_def)

lemma byte_size_plain: "getStringByteSize (replicate n (CHR ''a'')) = n"
  by (induction n) (simp_all add: getStringByteSize_def)

lemma big_record_size: "record_size big_record = 102400"
proof -
  have key: "quote ''text'' = [CHR 0x22] @ ''text'' @ [CHR 0x22]"
    by (simp add: quote_def escape_char_def)
  have "JSON_stringify big_record =
          (''{'' @ [CHR 0x22] @ ''text'' @ [CHR 0x22] @ '':'' @ [CHR 0x22])
          @ replicate 102389 (CHR ''a'') @ ([CHR 0x22] @ ''}'')"
    by (simp add: big_record_def key quote_plain)
  then have "record_size big_record =
      getStringByteSize (''{'' @ [CHR 0x22] @ ''text'' @ [CHR 0x22] @ '':'' @ [CHR 0x22])
      + (102389 + getStringByteSize ([CHR 0x22] @ ''}''))"
    by (simp only: record_size_def byte_size_append byte_size_plain)
  also have "\<dots> = 102400"
    by (simp add: getStringByteSize_def)
  finally show ?thesis .
qed

lemma addContentOrSplit_unbounded_tokens:
  assumes "maxTokens cfg = None"
  shows "addContentOrSplit countTokens cfg data w =
           addBytes cfg (JSON_stringify data)
             (w\<lparr>currentResults := currentResults w @ [data],
                estimatedTokens := estimatedTokens w + countTokens (JSON_stringify data)\<rparr>)"
  using assms
  by (simp add: addContentOrSplit_def Let_def tokenLimit_def isWithinTokenLimit_def addTokens_def
        tokens_exceed_def)

lemma write_five_equal_records:
  assumes tok: "maxTokens cfg = None" and lim: "maxBytes cfg = Some b"
    and two: "of_nat (2 * s) \<le> b" and three: "b < of_nat (3 * s)"
    and sz: "record_size r1 = s" "record_size r2 = s" "record_size r3 = s"
            "record_size r4 = s" "record_size r5 = s"
  shows "written (write_fn countTokens cfg [r1, r2, r3, r4, r5]) =
           [(strip_json_suffix (outputFileName cfg) @ ''-1.json'', [r1, r2, r3]),
            (strip_json_suffix (outputFileName cfg) @ ''-2.json'', [r4, r5])]"
proof -
  have one: "\<not> rat_of_nat s > b" using two by simp
  have two': "\<not> rat_of_nat (s + s) > b" using two by simp
  have three': "rat_of_nat (s + s + s) > b" using three by simp
  have sz': "getStringByteSize (JSON_stringify r1) = s" "getStringByteSize (JSON_stringify r2) = s"
    "getStringByteSize (JSON_stringify r3) = s" "getStringByteSize (JSON_stringify r4) = s"
    "getStringByteSize (JSON_stringify r5) = s"
    using sz by (simp_all add: record_size_def)
  define w1 where "w1 = addContentOrSplit countTokens cfg r1 write_init"
  define w2 where "w2 = addContentOrSplit countTokens cfg r2 w1"
  define w3 where "w3 = addContentOrSplit countTokens cfg r3 w2"
  define w4 where "w4 = addContentOrSplit countTokens cfg r4 w3"
  define w5 where "w5 = addContentOrSplit countTokens cfg r5 w4"
  have f1: "currentResults w1 = [r1]" "currentSize w1 = s" "written w1 = []" "fileCounter w1 = 1"
    using one by (simp_all add: w1_def addContentOrSplit_unbounded_tokens[OF tok] addBytes_fields
        write_init_def sz' lim bytes_exceed_def)
  have f2: "currentResults w2 = [r1, r2]" "currentSize w2 = s + s" "written w2 = []" "fileCounter w2 = 1"
    using two' by (simp_all add: w2_def addContentOrSplit_unbounded_tokens[OF tok] addBytes_fields
        f1 sz' lim bytes_exceed_def)
  have f3: "currentResults w3 = []" "currentSize w3 = 0"
    "written w3 = [(strip_json_suffix (outputFileName cfg) @ ''-1.json'', [r1, r2, r3])]"
    "fileCounter w3 = 2"
    using three' by (simp_all add: w3_def addContentOrSplit_unbounded_tokens[OF tok] addBytes_fields
        f2 sz' lim bytes_exceed_def nextFileName_def)
  have f4: "currentResults w4 = [r4]" "currentSize w4 = s"
    "written w4 = [(strip_json_suffix (outputFileName cfg) @ ''-1.json'', [r1, r2, r3])]"
    "fileCounter w4 = 2"
    using one by (simp_all add: w4_def addContentOrSplit_unbounded_tokens[OF tok] addBytes_fields
        f3 sz' lim bytes_exceed_def)
  have f5: "currentResults w5 = [r4, r5]" "currentSize w5 = s + s"
    "written w5 = [(strip_json_suffix (outputFileName cfg) @ ''-1.json'', [r1, r2, r3])]"
    "fileCounter w5 = 2"
    using two' by (simp_all add: w5_def addContentOrSplit_unbounded_tokens[OF tok] addBytes_fields
        f4 sz' lim bytes_exceed_def)
  have "fold (addContentOrSplit countTokens cfg) [r1, r2, r3, r4, r5] write_init = w5"
    by (simp add: w1_def w2_def w3_def w4_def w5_def)
  then have "write_fn countTokens cfg [r1, r2, r3, r4, r5] = writeBatchToFile cfg w5"
    unfolding write_fn_def by (simp add: Let_def f5)
  then show ?thesis
    by (simp add: writeBatchToFile_fields f5 nextFileName_def)
qed

lemma quote_text_key: "quote ''text'' = [CHR 0x22] @ ''text'' @ [CHR 0x22]"
  by (simp add: quote_def escape_char_def)

lemma text_record_stringify:
  "JSON_stringify (JObj [(''text'', JStr (replicate n (CHR ''a'')))]) =
     (''{'' @ [CHR 0x22] @ ''text'' @ [CHR 0x22] @ '':'' @ [CHR 0x22])
     @ replicate n (CHR ''a'') @ ([CHR 0x22] @ ''}'')"
  by (simp add: quote_text_key quote_plain)

lemma text_record_size:
  "record_size (JObj [(''text'', JStr (replicate n (CHR ''a'')))]) = n + 11"
proof -
  have "record_size (JObj [(''text'', JStr (replicate n (CHR ''a'')))]) =
      getStringByteSize (''{'' @ [CHR 0x22] @ ''text'' @ [CHR 0x22] @ '':'' @ [CHR 0x22])
      + (n + getStringByteSize ([CHR 0x22] @ ''}''))"
    by (simp only: record_size_def text_record_stringify byte_size_append byte_size_plain)
  also have "\<dots> = n + 11"
    by (simp add: getStringByteSize_def)
  finally show ?thesis .
qed

lemma text_record_length:
  "length (JSON_stringify (JObj [(''text'', JStr (replicate n (CHR ''a'')))])) = n + 11"
  by (simp only: text_record_stringify length_append length_replicate) simp

lemma text_record_file_size:
  "getStringByteSize (file_text [JObj [(''text'', JStr (replicate n (CHR ''a'')))],
                                 JObj [(''text'', JStr (replicate n (CHR ''a'')))]])
     = n + n + 50"
proof -
  have "file_text [JObj [(''text'', JStr (replicate n (CHR ''a'')))],
                   JObj [(''text'', JStr (replicate n (CHR ''a'')))]]
      = (''['' @ [CHR 0x0A] @ ''  {'' @ [CHR 0x0A] @ ''    '' @ [CHR 0x22] @ ''text'' @ [CHR 0x22]
           @ '': '' @ [CHR 0x22])
        @ replicate n (CHR ''a'')
        @ ([CHR 0x22, CHR 0x0A] @ ''  },'' @ [CHR 0x0A] @ ''  {'' @ [CHR 0x0A] @ ''    ''
           @ [CHR 0x22] @ ''text'' @ [CHR 0x22] @ '': '' @ [CHR 0x22])
        @ replicate n (CHR ''a'')
        @ ([CHR 0x22, CHR 0x0A] @ ''  }'' @ [CHR 0x0A] @ '']'')"
    by (simp add: file_text_def quote_text_key quote_plain replicate_append_same
          numeral_2_eq_2 numeral_Bit0)
  then have "getStringByteSize (file_text [JObj [(''text'', JStr (replicate n (CHR ''a'')))],
                   JObj [(''text'', JStr (replicate n (CHR ''a'')))]])
      = getStringByteSize (''['' @ [CHR 0x0A] @ ''  {'' @ [CHR 0x0A] @ ''    '' @ [CHR 0x22] @ ''text'' @ [CHR 0x22]
           @ '': '' @ [CHR 0x22])
        + (n + (getStringByteSize ([CHR 0x22, CHR 0x0A] @ ''  },'' @ [CHR 0x0A] @ ''  {'' @ [CHR 0x0A] @ ''    ''
           @ [CHR 0x22] @ ''text'' @ [CHR 0x22] @ '': '' @ [CHR 0x22])
        + (n + getStringByteSize ([CHR 0x22, CHR 0x0A] @ ''  }'' @ [CHR 0x0A] @ '']''))))"
    by (simp only: byte_size_append byte_size_plain)
  also have "\<dots> = n + n + 50"
    by (simp add: getStringByteSize_def)
  finally show ?thesis .
qed

lemma addContentOrSplit_sentinel:
  "isWithinTokenLimit countTokens (JSON_stringify data) (tokenLimit cfg) = None \<Longrightarrow>
   addContentOrSplit countTokens cfg data w = addBytes cfg (JSON_stringify data) w"
  by (simp add: addContentOrSplit_def Let_def addTokens_fields_None)

lemma write_two_records_one_file:
  assumes tok: "maxTokens cfg = None" and lim: "maxBytes cfg = Some b"
    and fits: "rat_of_nat (record_size r1) \<le> b"
    and over: "b < rat_of_nat (record_size r1 + record_size r2)"
  shows "written (write_fn countTokens cfg [r1, r2]) =
           [(strip_json_suffix (outputFileName cfg) @ ''-1.json'', [r1, r2])]"
proof -
  define w1 where "w1 = addContentOrSplit countTokens cfg r1 write_init"
  define w2 where "w2 = addContentOrSplit countTokens cfg r2 w1"
  have f1: "currentResults w1 = [r1]" "currentSize w1 = record_size r1" "written w1 = []"
    "fileCounter w1 = 1"
    using fits by (simp_all add: w1_def addContentOrSplit_unbounded_tokens[OF tok] addBytes_fields
        write_init_def lim bytes_exceed_def record_size_def not_less)
  have f2: "currentResults w2 = []"
    "written w2 = [(strip_json_suffix (outputFileName cfg) @ ''-1.json'', [r1, r2])]"
    using over by (simp_all add: w2_def addContentOrSplit_unbounded_tokens[OF tok] addBytes_fields
        f1 lim bytes_exceed_def nextFileName_def record_size_def[symmetric])
  have "fold (addContentOrSplit countTokens cfg) [r1, r2] write_init = w2"
    by (simp add: w1_def w2_def)
  then show ?thesis
    unfolding write_fn_def by (simp add: Let_def f2)
qed

lemma write_two_sentinel_records_empty_file:
  assumes s1: "isWithinTokenLimit countTokens (JSON_stringify r1) (tokenLimit cfg) = None"
    and s2: "isWithinTokenLimit countTokens (JSON_stringify r2) (tokenLimit cfg) = None"
    and lim: "maxBytes cfg = Some b"
    and fits: "rat_of_nat (record_size r1) \<le> b"
    and over: "b < rat_of_nat (record_size r1 + record_size r2)"
  shows "written (write_fn countTokens cfg [r1, r2]) =
           [(strip_json_suffix (outputFileName cfg) @ ''-1.json'', [])]"
    and "fileCounter (write_fn countTokens cfg [r1, r2]) = 2"
proof -
  define w1 where "w1 = addContentOrSplit countTokens cfg r1 write_init"
  define w2 where "w2 = addContentOrSplit countTokens cfg r2 w1"
  have f1: "currentResults w1 = []" "currentSize w1 = record_size r1" "written w1 = []"
    "fileCounter w1 = 1"
    using fits by (simp_all add: w1_def addContentOrSplit_sentinel[OF s1] addBytes_fields
        write_init_def lim bytes_exceed_def record_size_def not_less)
  have f2: "currentResults w2 = []"
    "written w2 = [(strip_json_suffix (outputFileName cfg) @ ''-1.json'', [])]"
    "fileCounter w2 = 2"
    using over by (simp_all add: w2_def addContentOrSplit_sentinel[OF s2] addBytes_fields
        f1 lim bytes_exceed_def nextFileName_def record_size_def[symmetric])
  have "fold (addContentOrSplit countTokens cfg) [r1, r2] write_init = w2"
    by (simp add: w1_def w2_def)
  then have "write_fn countTokens cfg [r1, r2] = w2"
    unfolding write_fn_def by (simp add: Let_def f2)
  then show "written (write_fn countTokens cfg [r1, r2]) =
           [(strip_json_suffix (outputFileName cfg) @ ''-1.json'', [])]"
    and "fileCounter (write_fn countTokens cfg [r1, r2]) = 2"
    by (simp_all add: f2)
qed

lemma mb_record_size: "record_size mb_record = 1048576"
  unfolding mb_record_def by (simp only: text_record_size)

lemma mb_record_sentinel:
  "isWithinTokenLimit length (JSON_stringify mb_record) (tokenLimit cfg_1MB_tokens) = None"
  unfolding mb_record_def isWithinTokenLimit_def tokenLimit_def
  by (simp only: text_record_length) (simp add: cfg_1MB_tokens_def)

lemma cfg_1MB_limits:
  "maxBytes cfg_1MB = Some 1048576" "maxTokens cfg_1MB = None"
  "maxBytes cfg_1MB_tokens = Some 1048576"
  "strip_json_suffix (outputFileName cfg_1MB) = ''output''"
  "strip_json_suffix (outputFileName cfg_1MB_tokens) = ''output''"
  by (simp_all add: maxBytes_def cfg_1MB_def cfg_1MB_tokens_def strip_json_suffix_def)

lemma mb_two_records_run:
  "written (write_fn length cfg_1MB [mb_record, mb_record])
     = [(''output-1.json'', [mb_record, mb_record])]"
  using write_two_records_one_file[of cfg_1MB 1048576 mb_record mb_record length]
  by (simp add: cfg_1MB_limits mb_record_size)

lemma mb_two_records_text_size:
  "getStringByteSize (file_text [mb_record, mb_record]) = 2097180"
  unfolding mb_record_def by (simp only: text_record_file_size)

lemma mb_empty_file_run:
  "written (write_fn length cfg_1MB_tokens [mb_record, mb_record]) = [(''output-1.json'', [])]"
  "fileCounter (write_fn length cfg_1MB_tokens [mb_record, mb_record]) = 2"
  using write_two_sentinel_records_empty_file[of length mb_record cfg_1MB_tokens mb_record 1048576]
  by (simp_all add: cfg_1MB_limits mb_record_size mb_record_sentinel)

lemma empty_file_text: "file_text [] = ''[]''"
  by (simp add: file_text_def)

subsection \<open>The byte bound as an invariant\<close>

lemma file_ok_within: "rat_of_nat (sum_list (map record_size batch)) \<le> B \<Longrightarrow> file_ok B batch"
  by (simp add: file_ok_def add_increasing2)

lemma file_ok_snoc:
  "rat_of_nat (sum_list (map record_size batch)) \<le> B \<Longrightarrow> file_ok B (batch @ [data])"
  by (simp add: file_ok_def)

lemma bytes_inv_init: "0 \<le> B \<Longrightarrow> bytes_inv B write_init"
  by (simp add: bytes_inv_def write_init_def)

lemma bytes_inv_flush:
  assumes "bytes_inv B w" "0 \<le> B"
  shows "bytes_inv B (writeBatchToFile cfg w)"
proof -
  have "rat_of_nat (sum_list (map record_size (currentResults w))) \<le> B"
    using assms(1) unfolding bytes_inv_def
    by (meson of_nat_le_iff order_trans)
  then have "file_ok B (currentResults w)" by (rule file_ok_within)
  with assms show ?thesis
    by (simp add: bytes_inv_def writeBatchToFile_fields)
qed

lemma mid_inv_addTokens:
  assumes "bytes_inv B w" "0 \<le> B"
  shows "mid_inv B data (addTokens cfg data tokenCount w)"
proof (cases tokenCount)
  case None
  with assms show ?thesis
    by (simp add: addTokens_fields_None mid_inv_def bytes_inv_def)
next
  case (Some n)
  show ?thesis
  proof (cases "tokens_exceed (estimatedTokens w + n) (maxTokens cfg)")
    case False
    with assms Some show ?thesis
      by (simp add: addTokens_fields_fits mid_inv_def bytes_inv_def)
  next
    case True
    show ?thesis
    proof (cases "currentResults w = []")
      case True
      with \<open>tokens_exceed (estimatedTokens w + n) (maxTokens cfg)\<close> assms Some show ?thesis
        by (simp add: addTokens_fields_overflow mid_inv_def bytes_inv_def)
    next
      case False
      have "bytes_inv B (writeBatchToFile cfg w)"
        using assms by (rule bytes_inv_flush)
      then have "list_all (\<lambda>f. file_ok B (snd f)) (written w @ [(nextFileName cfg w, currentResults w)])"
        by (simp add: bytes_inv_def writeBatchToFile_fields)
      with False \<open>tokens_exceed (estimatedTokens w + n) (maxTokens cfg)\<close> assms Some show ?thesis
        by (simp add: addTokens_fields_overflow mid_inv_def)
    qed
  qed
qed

lemma bytes_inv_addBytes:
  assumes "mid_inv B data w" "maxBytes cfg = Some B"
  shows "bytes_inv B (addBytes cfg (JSON_stringify data) w)"
proof (cases "bytes_exceed (currentSize w + record_size data) (maxBytes cfg)")
  case False
  then have le: "rat_of_nat (currentSize w + record_size data) \<le> B"
    using assms(2) by (simp add: bytes_exceed_def)
  have "sum_list (map record_size (currentResults w)) \<le> currentSize w + record_size data"
    using assms(1) unfolding mid_inv_def by auto
  with le False assms(1) show ?thesis
    by (simp add: bytes_inv_def mid_inv_def addBytes_fields record_size_def[symmetric])
next
  case True
  have cs: "rat_of_nat (currentSize w) \<le> B" and fs: "list_all (\<lambda>f. file_ok B (snd f)) (written w)"
    using assms(1) by (simp_all add: mid_inv_def)
  then have B0: "0 \<le> B"
    by (meson of_nat_0_le_iff order_trans)
  have "file_ok B (currentResults w)"
  proof -
    from assms(1) consider
      (a) "sum_list (map record_size (currentResults w)) \<le> currentSize w"
      | (b) batch where "currentResults w = batch @ [data]"
          "sum_list (map record_size batch) \<le> currentSize w"
      unfolding mid_inv_def by blast
    then show ?thesis
    proof cases
      case a
      then have "rat_of_nat (sum_list (map record_size (currentResults w))) \<le> B"
        using cs by (meson of_nat_le_iff order_trans)
      then show ?thesis by (rule file_ok_within)
    next
      case b
      from b(2) have "rat_of_nat (sum_list (map record_size batch)) \<le> B"
        using cs by (meson of_nat_le_iff order_trans)
      then show ?thesis unfolding b(1) by (rule file_ok_snoc)
    qed
  qed
  with True fs B0 show ?thesis
    by (simp add: bytes_inv_def addBytes_fields record_size_def[symmetric])
qed

lemma bytes_inv_step:
  assumes "bytes_inv B w" "maxBytes cfg = Some B" "0 \<le> B"
  shows "bytes_inv B (addContentOrSplit countTokens cfg data w)"
  unfolding addContentOrSplit_def Let_def
  using mid_inv_addTokens[OF assms(1,3)] assms(2) by (rule bytes_inv_addBytes)

lemma bytes_inv_fold:
  assumes "maxBytes cfg = Some B" "0 \<le> B"
  shows "bytes_inv B w \<Longrightarrow> bytes_inv B (fold (addContentOrSplit countTokens cfg) jsonFiles w)"
  by (induction jsonFiles arbitrary: w) (simp_all add: bytes_inv_step[OF _ assms])

lemma bytes_inv_write:
  assumes "maxBytes cfg = Some B" "0 \<le> B"
  shows "bytes_inv B (write_fn countTokens cfg jsonFiles)"
  unfolding write_fn_def Let_def
  using bytes_inv_fold[OF assms bytes_inv_init[OF assms(2)]] bytes_inv_flush[OF _ assms(2)]
  by simp

subsection \<open>Only records with a numeric count reach a file\<close>

lemma numeric_inv_init: "numeric_inv countTokens cfg write_init"
  by (simp add: numeric_inv_def numeric_only_def write_init_def)

lemma numeric_inv_flush:
  "numeric_inv countTokens cfg w \<Longrightarrow> numeric_inv countTokens cfg (writeBatchToFile cfg' w)"
  by (simp add: numeric_inv_def numeric_only_def writeBatchToFile_fields)

lemma numeric_inv_addBytes:
  "numeric_inv countTokens cfg w \<Longrightarrow> numeric_inv countTokens cfg (addBytes cfg c w)"
  by (simp add: numeric_inv_def numeric_only_def addBytes_fields)

lemma numeric_inv_addTokens:
  assumes "numeric_inv countTokens cfg w"
  shows "numeric_inv countTokens cfg
           (addTokens cfg data (isWithinTokenLimit countTokens (JSON_stringify data) (tokenLimit cfg)) w)"
proof (cases "isWithinTokenLimit countTokens (JSON_stringify data) (tokenLimit cfg)")
  case None
  with assms show ?thesis by (simp add: addTokens_fields_None)
next
  case (Some n)
  show ?thesis
  proof (cases "tokens_exceed (estimatedTokens w + n) (maxTokens cfg)")
    case True
    with assms Some show ?thesis
      by (simp add: numeric_inv_def numeric_only_def addTokens_fields_overflow)
  next
    case False
    with assms Some show ?thesis
      by (simp add: numeric_inv_def numeric_only_def addTokens_fields_fits)
  qed
qed

lemma numeric_inv_step:
  "numeric_inv countTokens cfg w \<Longrightarrow> numeric_inv countTokens cfg (addContentOrSplit countTokens cfg data w)"
  unfolding addContentOrSplit_def Let_def
  by (intro numeric_inv_addBytes numeric_inv_addTokens)

lemma numeric_inv_fold:
  "numeric_inv countTokens cfg w \<Longrightarrow>
   numeric_inv countTokens cfg (fold (addContentOrSplit countTokens cfg) jsonFiles w)"
  by (induction jsonFiles arbitrary: w) (simp_all add: numeric_inv_step)

lemma numeric_inv_write: "numeric_inv countTokens cfg (write_fn countTokens cfg jsonFiles)"
  unfolding write_fn_def Let_def
  using numeric_inv_fold[OF numeric_inv_init, of countTokens cfg jsonFiles]
  by (simp add: numeric_inv_flush)

subsection \<open>The claims about the writer\<close>

text \<open>
  C1, as the code has it. The record is pushed only inside the block guarded by
  \<^verbatim>\<open>typeof tokenCount === "number"\<close>. When the token counter returns the sentinel the call
  leaves the token estimate alone and does not append the record: afterwards the batch is
  what it was, or, when the byte counter has triggered a flush, it is empty and the file
  written by the call holds the batch as it was. Over a whole run of \<^verbatim>\<open>write\<close> such a record
  is in none of the files.
\<close>

theorem sentinel_record_not_appended:
  assumes "isWithinTokenLimit countTokens (JSON_stringify data) (tokenLimit cfg) = None"
  shows "estimatedTokens (addContentOrSplit countTokens cfg data w) = estimatedTokens w
    \<and> (currentResults (addContentOrSplit countTokens cfg data w) = currentResults w
          \<and> written (addContentOrSplit countTokens cfg data w) = written w
        \<or> currentResults (addContentOrSplit countTokens cfg data w) = []
          \<and> written (addContentOrSplit countTokens cfg data w)
               = written w @ [(nextFileName cfg w, currentResults w)])
    \<and> (\<forall>f \<in> set (written (write_fn countTokens cfg jsonFiles)). data \<notin> set (snd f))"
proof -
  have "data \<notin> set (snd f)" if "f \<in> set (written (write_fn countTokens cfg jsonFiles))" for f
  proof
    assume "data \<in> set (snd f)"
    moreover have "numeric_only countTokens cfg (snd f)"
      using numeric_inv_write[of countTokens cfg jsonFiles] that
      by (simp add: numeric_inv_def list_all_iff)
    ultimately have "isWithinTokenLimit countTokens (JSON_stringify data) (tokenLimit cfg) \<noteq> None"
      by (simp add: numeric_only_def list_all_iff)
    with assms show False by simp
  qed
  with assms show ?thesis
    by (simp add: addContentOrSplit_def Let_def addTokens_fields_None addBytes_fields)
qed

text \<open>
  The theorem with ceilings of 1000 tokens and 1 MB: the record of 1048576 characters gets
  the sentinel, the first call leaves the batch empty, and the one file of the run over
  two such records holds no record.
\<close>

theorem sentinel_record_not_appended_witness:
  "isWithinTokenLimit length (JSON_stringify mb_record) (tokenLimit cfg_1MB_tokens) = None
   \<and> estimatedTokens (addContentOrSplit length cfg_1MB_tokens mb_record write_init) = 0
   \<and> currentResults (addContentOrSplit length cfg_1MB_tokens mb_record write_init) = []
   \<and> written (addContentOrSplit length cfg_1MB_tokens mb_record write_init) = []
   \<and> written (write_fn length cfg_1MB_tokens [mb_record, mb_record])
        = [(''output-1.json'', [])]
   \<and> mb_record \<notin> set []"
  using sentinel_record_not_appended
          [of length mb_record cfg_1MB_tokens write_init "[mb_record, mb_record]"]
    mb_record_sentinel mb_empty_file_run(1)
  by (simp add: addContentOrSplit_sentinel addBytes_fields write_init_def bytes_exceed_def
        cfg_1MB_limits record_size_def[symmetric] mb_record_size)

text \<open>
  Against C1 as it is written: with a ceiling of 10 tokens the page record, 34 tokens long,
  gets the sentinel; it is not in the batch after \<^verbatim>\<open>addContentOrSplit\<close>, and \<^verbatim>\<open>write\<close> over
  this one record writes no file at all.
\<close>

theorem sentinel_record_dropped:
  "isWithinTokenLimit length (JSON_stringify page_record) (tokenLimit cfg_tokens_only) = None
   \<and> currentResults (addContentOrSplit length cfg_tokens_only page_record write_init) = []
   \<and> written (write_fn length cfg_tokens_only [page_record]) = []"
  using sentinel_run by simp

text \<open>
  C2, as the code has it. Five records of 100 KB each, a file size of 250 KB and no token
  ceiling: the size is compared after the record has been appended, so the third record
  is in the batch when 300 KB exceed 250 KB. \<^verbatim>\<open>write\<close> produces exactly two files, the first
  with the first three records, the second with the last two.
\<close>

theorem write_five_records_two_files:
  assumes "maxTokens cfg = None" and "maxFileSize cfg = Some (250 / 1024)"
    and "record_size r1 = 102400 \<and> record_size r2 = 102400 \<and> record_size r3 = 102400
         \<and> record_size r4 = 102400 \<and> record_size r5 = 102400"
  shows "written (write_fn countTokens cfg [r1, r2, r3, r4, r5]) =
           [(strip_json_suffix (outputFileName cfg) @ ''-1.json'', [r1, r2, r3]),
            (strip_json_suffix (outputFileName cfg) @ ''-2.json'', [r4, r5])]"
proof (rule write_five_equal_records[where b = 256000 and s = 102400])
  show "maxBytes cfg = Some 256000" using assms(2) by (simp add: maxBytes_def)
qed (use assms in simp_all)

theorem write_five_records_two_files_witness:
  "maxTokens cfg_250KB = None \<and> maxFileSize cfg_250KB = Some (250 / 1024)
   \<and> record_size big_record = 102400
   \<and> written (write_fn length cfg_250KB
                [big_record, big_record, big_record, big_record, big_record])
       = [(''output-1.json'', [big_record, big_record, big_record]),
          (''output-2.json'', [big_record, big_record])]"
  using write_five_records_two_files
          [of cfg_250KB big_record big_record big_record big_record big_record length]
  by (simp add: big_record_size cfg_250KB_def strip_json_suffix_def)

text \<open>
  Against C2 as it is written: on five records of 102400 bytes with a limit of 256000
  bytes the files hold 3 and 2 records, not 2, 2 and 1.
\<close>

theorem write_five_records_not_three_files:
  "maxBytes cfg_250KB = Some 256000 \<and> maxTokens cfg_250KB = None
   \<and> record_size big_record = 102400
   \<and> map (\<lambda>f. length (snd f))
        (written (write_fn length cfg_250KB
                   [big_record, big_record, big_record, big_record, big_record])) = [3, 2]
   \<and> map (\<lambda>f. length (snd f))
        (written (write_fn length cfg_250KB
                   [big_record, big_record, big_record, big_record, big_record])) \<noteq> [2, 2, 1]"
proof -
  have lim: "maxBytes cfg_250KB = Some 256000" and tok: "maxTokens cfg_250KB = None"
    by (simp_all add: maxBytes_def cfg_250KB_def)
  have "written (write_fn length cfg_250KB
                  [big_record, big_record, big_record, big_record, big_record])
       = [(strip_json_suffix (outputFileName cfg_250KB) @ ''-1.json'',
           [big_record, big_record, big_record]),
          (strip_json_suffix (outputFileName cfg_250KB) @ ''-2.json'',
           [big_record, big_record])]"
    by (rule write_five_equal_records[where b = 256000 and s = 102400])
       (simp_all add: lim tok big_record_size)
  then show ?thesis
    by (simp add: lim tok big_record_size)
qed

text \<open>
  C3. A flush empties the record list and sets the byte counter to zero and does not touch
  the token estimate; this holds for the flush that the byte counter triggers at the end
  of \<^verbatim>\<open>addContentOrSplit\<close> as for any other. Over a whole call the estimate changes in two
  ways only: it becomes half the record's count, rounded down, when a numeric count
  overflows the ceiling, and it grows by the count when a numeric count fits.
\<close>

theorem flush_keeps_token_estimate:
  "currentResults (writeBatchToFile cfg w) = []
   \<and> currentSize (writeBatchToFile cfg w) = 0
   \<and> estimatedTokens (writeBatchToFile cfg w) = estimatedTokens w
   \<and> currentResults (addBytes cfg c w) =
       (if bytes_exceed (currentSize w + getStringByteSize c) (maxBytes cfg) then []
        else currentResults w)
   \<and> currentSize (addBytes cfg c w) =
       (if bytes_exceed (currentSize w + getStringByteSize c) (maxBytes cfg) then 0
        else currentSize w + getStringByteSize c)
   \<and> estimatedTokens (addBytes cfg c w) = estimatedTokens w
   \<and> estimatedTokens (addContentOrSplit countTokens cfg data w) =
       (case isWithinTokenLimit countTokens (JSON_stringify data) (tokenLimit cfg) of
          None \<Rightarrow> estimatedTokens w
        | Some n \<Rightarrow>
            if tokens_exceed (estimatedTokens w + n) (maxTokens cfg) then n div 2
            else estimatedTokens w + n)"
proof -
  have "estimatedTokens (addContentOrSplit countTokens cfg data w) =
       (case isWithinTokenLimit countTokens (JSON_stringify data) (tokenLimit cfg) of
          None \<Rightarrow> estimatedTokens w
        | Some n \<Rightarrow>
            if tokens_exceed (estimatedTokens w + n) (maxTokens cfg) then n div 2
            else estimatedTokens w + n)"
    by (simp add: addContentOrSplit_def Let_def addBytes_fields addTokens_fields_None
          addTokens_fields_overflow addTokens_fields_fits split: option.split)
  then show ?thesis
    by (simp add: writeBatchToFile_fields addBytes_fields)
qed

text \<open>
  C4. For a record with a numeric token count \<open>n\<close>, \<^verbatim>\<open>addContentOrSplit\<close> is the token block
  followed by the byte accounting. If the estimate plus \<open>n\<close> exceeds the ceiling, the
  token block flushes the batch when, and only when, it is not empty, sets the estimate
  to \<open>n div 2\<close>, and the new batch holds just this record. Otherwise it appends the record,
  adds \<open>n\<close> to the estimate and writes nothing.
\<close>

theorem numeric_count_token_step:
  assumes "isWithinTokenLimit countTokens (JSON_stringify data) (tokenLimit cfg) = Some n"
  shows "addContentOrSplit countTokens cfg data w
           = addBytes cfg (JSON_stringify data) (addTokens cfg data (Some n) w)
    \<and> (tokens_exceed (estimatedTokens w + n) (maxTokens cfg) \<longrightarrow>
         estimatedTokens (addTokens cfg data (Some n) w) = n div 2
         \<and> currentResults (addTokens cfg data (Some n) w) = [data]
         \<and> written (addTokens cfg data (Some n) w) =
             (if currentResults w = [] then written w
              else written w @ [(nextFileName cfg w, currentResults w)])
         \<and> fileCounter (addTokens cfg data (Some n) w) =
             (if currentResults w = [] then fileCounter w else fileCounter w + 1))
    \<and> (\<not> tokens_exceed (estimatedTokens w + n) (maxTokens cfg) \<longrightarrow>
         estimatedTokens (addTokens cfg data (Some n) w) = estimatedTokens w + n
         \<and> currentResults (addTokens cfg data (Some n) w) = currentResults w @ [data]
         \<and> written (addTokens cfg data (Some n) w) = written w
         \<and> fileCounter (addTokens cfg data (Some n) w) = fileCounter w)"
  using assms
  by (simp add: addContentOrSplit_def Let_def addTokens_fields_overflow addTokens_fields_fits)

text \<open>
  The theorem with a ceiling of 50 tokens and the page record of 34 tokens: the first
  record fits, the second overflows and sends the first to a file.
\<close>

theorem numeric_count_token_step_witness:
  "isWithinTokenLimit length (JSON_stringify page_record) (tokenLimit cfg_tokens_50) = Some 34
   \<and> \<not> tokens_exceed (estimatedTokens write_init + 34) (maxTokens cfg_tokens_50)
   \<and> currentResults (addTokens cfg_tokens_50 page_record (Some 34) write_init) = [page_record]
   \<and> estimatedTokens (addTokens cfg_tokens_50 page_record (Some 34) write_init) = 34
   \<and> tokens_exceed
        (estimatedTokens (addContentOrSplit length cfg_tokens_50 page_record write_init) + 34)
        (maxTokens cfg_tokens_50)
   \<and> estimatedTokens
        (addTokens cfg_tokens_50 page_record (Some 34)
          (addContentOrSplit length cfg_tokens_50 page_record write_init)) = 17
   \<and> currentResults
        (addTokens cfg_tokens_50 page_record (Some 34)
          (addContentOrSplit length cfg_tokens_50 page_record write_init)) = [page_record]
   \<and> written
        (addTokens cfg_tokens_50 page_record (Some 34)
          (addContentOrSplit length cfg_tokens_50 page_record write_init))
       = [(''output-1.json'', [page_record])]"
  using numeric_count_token_step[of length page_record cfg_tokens_50 34 write_init]
    numeric_count_token_step[of length page_record cfg_tokens_50 34
      "addContentOrSplit length cfg_tokens_50 page_record write_init"]
  by (simp add: page_record_text cfg_tokens_50_def isWithinTokenLimit_def tokenLimit_def
        tokens_exceed_def write_init_def addBytes_def addTokens_def bytes_exceed_def
        maxBytes_def nextFileName_def strip_json_suffix_def Let_def)

text \<open>
  C5, as the code has it. The counter compared with the byte ceiling \<open>B\<close> adds up the sizes
  of the compact serializations of the records; the file holds the indented
  serialization of the whole array, which is longer. What is bounded is the sum of the
  record sizes of a written file: it is at most \<open>B\<close> plus the size of the last record of
  that file, for a ceiling that is not negative.
\<close>

theorem written_file_byte_bound:
  assumes "maxBytes cfg = Some B" and "0 \<le> B"
    and "(name, batch) \<in> set (written (write_fn countTokens cfg jsonFiles))"
  shows "of_nat (sum_list (map record_size batch))
           \<le> B + of_nat (if batch = [] then 0 else record_size (last batch))"
proof -
  have "list_all (\<lambda>f. file_ok B (snd f)) (written (write_fn countTokens cfg jsonFiles))"
    using bytes_inv_write[OF assms(1,2)] by (simp add: bytes_inv_def)
  with assms(3) have "file_ok B batch"
    by (auto simp: list_all_iff)
  then show ?thesis by (simp add: file_ok_def)
qed

text \<open>
  The theorem with a ceiling of 1 MB and two records of 1048576 bytes: one file with both
  records, whose sizes add up to the ceiling plus the size of the second.
\<close>

theorem written_file_byte_bound_witness:
  "maxBytes cfg_1MB = Some 1048576 \<and> (0::rat) \<le> 1048576
   \<and> (''output-1.json'', [mb_record, mb_record])
        \<in> set (written (write_fn length cfg_1MB [mb_record, mb_record]))
   \<and> rat_of_nat (sum_list (map record_size [mb_record, mb_record]))
        \<le> 1048576 + rat_of_nat (record_size mb_record)"
  using written_file_byte_bound
          [of cfg_1MB 1048576 "''output-1.json''" "[mb_record, mb_record]" length
              "[mb_record, mb_record]"]
    cfg_1MB_limits(1) mb_two_records_run
  by simp

text \<open>
  Against C5 as it is written: with a ceiling of 1 MB (1048576 bytes) and two records of
  1048576 bytes the one file written holds both records, and its text has 2097180 bytes,
  more than the ceiling plus the size of one record.
\<close>

theorem pretty_printed_file_exceeds_bound:
  "maxBytes cfg_1MB = Some 1048576
   \<and> record_size mb_record = 1048576
   \<and> written (write_fn length cfg_1MB [mb_record, mb_record])
       = [(''output-1.json'', [mb_record, mb_record])]
   \<and> getStringByteSize (file_text [mb_record, mb_record]) = 2097180
   \<and> (1048576 + 1048576 :: nat) < 2097180"
  using cfg_1MB_limits(1) mb_record_size mb_two_records_run mb_two_records_text_size
  by simp

text \<open>
  C10. When the token counter returns the sentinel, \<^verbatim>\<open>addContentOrSplit\<close> is the byte
  accounting alone: the record is not appended, and its size is added to the byte
  counter all the same. If that makes the counter exceed the byte ceiling while the batch
  is empty, the call writes a file with an empty array and increments the file counter.
  This happens: with ceilings of 1000 tokens and 1 MB, two records of 1048576 characters
  make \<^verbatim>\<open>write\<close> produce one file, whose text is \<^verbatim>\<open>[]\<close>, and leave the file counter at 2.
\<close>

theorem sentinel_record_counts_bytes:
  "(isWithinTokenLimit countTokens (JSON_stringify data) (tokenLimit cfg) = None \<longrightarrow>
      addContentOrSplit countTokens cfg data w = addBytes cfg (JSON_stringify data) w
      \<and> (\<not> bytes_exceed (currentSize w + record_size data) (maxBytes cfg) \<longrightarrow>
            currentResults (addContentOrSplit countTokens cfg data w) = currentResults w
            \<and> currentSize (addContentOrSplit countTokens cfg data w)
                = currentSize w + record_size data)
      \<and> (bytes_exceed (currentSize w + record_size data) (maxBytes cfg)
           \<and> currentResults w = [] \<longrightarrow>
            written (addContentOrSplit countTokens cfg data w)
                = written w @ [(nextFileName cfg w, [])]
            \<and> fileCounter (addContentOrSplit countTokens cfg data w) = fileCounter w + 1))
   \<and> written (write_fn length cfg_1MB_tokens [mb_record, mb_record]) = [(''output-1.json'', [])]
   \<and> fileCounter (write_fn length cfg_1MB_tokens [mb_record, mb_record]) = 2
   \<and> file_text [] = ''[]''"
  using mb_empty_file_run empty_file_text
  by (simp add: addContentOrSplit_def Let_def addTokens_fields_None addBytes_fields
        record_size_def)

theorem sentinel_record_counts_bytes_witness:
  "isWithinTokenLimit length (JSON_stringify mb_record) (tokenLimit cfg_1MB_tokens) = None
   \<and> \<not> bytes_exceed (currentSize write_init + record_size mb_record) (maxBytes cfg_1MB_tokens)
   \<and> currentResults (addContentOrSplit length cfg_1MB_tokens mb_record write_init) = []
   \<and> currentSize (addContentOrSplit length cfg_1MB_tokens mb_record write_init) = 1048576
   \<and> bytes_exceed
        (currentSize (addContentOrSplit length cfg_1MB_tokens mb_record write_init)
         + record_size mb_record) (maxBytes cfg_1MB_tokens)
   \<and> written
        (addContentOrSplit length cfg_1MB_tokens mb_record
          (addContentOrSplit length cfg_1MB_tokens mb_record write_init))
       = [(''output-1.json'', [])]"
  using sentinel_record_counts_bytes[of length mb_record cfg_1MB_tokens write_init]
    sentinel_record_counts_bytes[of length mb_record cfg_1MB_tokens
      "addContentOrSplit length cfg_1MB_tokens mb_record write_init"]
    mb_record_sentinel
  by (simp add: mb_record_size cfg_1MB_limits write_init_def bytes_exceed_def
        nextFileName_def addBytes_fields record_size_def[symmetric])

end
